theory Spec2Isabelle
  imports Main "HOL-Library.Word"
begin

section \<open>The parse tree the reader walks\<close>

text \<open>
  The reader of \<^verbatim>\<open>airscan-xml.c\<close> walks a tree built by the external parser (libxml2).
  Of a node it reads the type, the name, the namespace, and the links
  \<^verbatim>\<open>next\<close>, \<^verbatim>\<open>children\<close> and \<^verbatim>\<open>parent\<close>. The tree is never modified by the reader.

  A node is one of the kinds below; only elements have children. A document is the list of
  its top-level nodes (\<^verbatim>\<open>doc->children\<close> and their \<^verbatim>\<open>next\<close> chain).
\<close>

record xmlNs =
  xmlns_prefix :: "string option"
  xmlns_href :: string

datatype xmlNode =
    XML_ELEMENT_NODE string "xmlNs option" "xmlNode list"
  | XML_TEXT_NODE string
  | XML_CDATA_SECTION_NODE string
  | XML_COMMENT_NODE string
  | XML_PI_NODE string string

type_synonym xmlDoc = "xmlNode list"

text \<open>
  A pointer to a node is the position of the node in the document: the child indices from
  the node up to the top level, innermost first. The empty position is the document node
  itself (the parent of the top-level nodes). \<^verbatim>\<open>NULL\<close> is \<open>None\<close>.
\<close>

type_synonym xmlNodePtr = "nat list"

fun is_element :: "xmlNode \<Rightarrow> bool" where
  "is_element (XML_ELEMENT_NODE n ns cs) = True"
| "is_element other = False"

fun element_children :: "xmlNode \<Rightarrow> xmlNode list" where
  "element_children (XML_ELEMENT_NODE n ns cs) = cs"
| "element_children other = []"

fun element_name :: "xmlNode \<Rightarrow> string" where
  "element_name (XML_ELEMENT_NODE n ns cs) = n"
| "element_name (XML_PI_NODE n c) = n"
| "element_name other = []"

fun element_ns :: "xmlNode \<Rightarrow> xmlNs option" where
  "element_ns (XML_ELEMENT_NODE n ns cs) = ns"
| "element_ns other = None"

text \<open>The children of the node at a position (of the document, for the empty position).\<close>

fun kids :: "xmlDoc \<Rightarrow> xmlNodePtr \<Rightarrow> xmlNode list" where
  "kids doc [] = doc"
| "kids doc (i # up) =
     (let ks = kids doc up in if i < length ks then element_children (ks ! i) else [])"

definition deref :: "xmlDoc \<Rightarrow> xmlNodePtr \<Rightarrow> xmlNode option" where
  "deref doc p =
     (case p of [] \<Rightarrow> None
      | i # up \<Rightarrow> (let ks = kids doc up in if i < length ks then Some (ks ! i) else None))"

definition node_next :: "xmlDoc \<Rightarrow> xmlNodePtr \<Rightarrow> xmlNodePtr option" where
  "node_next doc p =
     (case p of [] \<Rightarrow> None
      | i # up \<Rightarrow> if Suc i < length (kids doc up) then Some (Suc i # up) else None)"

definition node_children :: "xmlDoc \<Rightarrow> xmlNodePtr \<Rightarrow> xmlNodePtr option" where
  "node_children doc p = (if kids doc p = [] then None else Some (0 # p))"

definition node_parent :: "xmlNodePtr \<Rightarrow> xmlNodePtr option" where
  "node_parent p = (case p of [] \<Rightarrow> None | i # up \<Rightarrow> Some up)"

definition node_is_element :: "xmlDoc \<Rightarrow> xmlNodePtr \<Rightarrow> bool" where
  "node_is_element doc p = (case deref doc p of None \<Rightarrow> False | Some n \<Rightarrow> is_element n)"

definition node_name :: "xmlDoc \<Rightarrow> xmlNodePtr \<Rightarrow> string" where
  "node_name doc p = (case deref doc p of None \<Rightarrow> [] | Some n \<Rightarrow> element_name n)"

definition node_ns :: "xmlDoc \<Rightarrow> xmlNodePtr \<Rightarrow> xmlNs option" where
  "node_ns doc p = (case deref doc p of None \<Rightarrow> None | Some n \<Rightarrow> element_ns n)"

section \<open>The reader\<close>

text \<open>
  A substitution rule and a cache entry are both \<^verbatim>\<open>xml_ns\<close>: a prefix and a URI
  (a glob pattern in a rule, an exact string in the cache). The rule array ends at the
  first entry with a \<^verbatim>\<open>NULL\<close> prefix; the list holds the entries before it.
\<close>

record xml_ns =
  ns_prefix :: string
  ns_uri :: string

text \<open>
  \<^verbatim>\<open>struct xml_rd\<close>. The cache array with its length is the list \<open>rd_subst_cache\<close>.
  The depth is an \<^verbatim>\<open>unsigned int\<close>; it is the nesting depth of a node of a parsed
  document and is kept as a natural number.
\<close>

record xml_rd =
  rd_doc :: xmlDoc
  rd_node :: "xmlNodePtr option"
  rd_parent :: "xmlNodePtr option"
  rd_name :: "string option"
  rd_path :: string
  rd_pathlen :: "nat list"
  rd_pathlen_cap :: nat
  rd_text :: "string option"
  rd_depth :: nat
  rd_subst_rules :: "xml_ns list option"
  rd_subst_cache :: "xml_ns list"
  rd_subst_cache_cap :: nat

text \<open>
  \<^verbatim>\<open>fnmatch(pattern, string, 0)\<close> belongs to the C library. The reader's functions take it
  as a parameter: the function is \<open>True\<close> where \<^verbatim>\<open>fnmatch\<close> returns 0 (a match).
\<close>

type_synonym fnmatch_fn = "string \<Rightarrow> string \<Rightarrow> bool"

text \<open>\<^verbatim>\<open>xml_rd_skip_dummy\<close>: follow \<^verbatim>\<open>next\<close> until an element or \<^verbatim>\<open>NULL\<close>.\<close>

function skip_dummy_loop :: "xmlDoc \<Rightarrow> xmlNodePtr option \<Rightarrow> xmlNodePtr option" where
  "skip_dummy_loop doc node =
     (case node of None \<Rightarrow> None
      | Some p \<Rightarrow>
          if \<not> node_is_element doc p then skip_dummy_loop doc (node_next doc p) else Some p)"
  by pat_completeness auto
termination
proof (relation "measure (\<lambda>(doc, node). case node of None \<Rightarrow> 0
                   | Some p \<Rightarrow> (case p of [] \<Rightarrow> 1 | i # up \<Rightarrow> Suc (length (kids doc up) - i)))")
  show "wf (measure (\<lambda>(doc, node). case node of None \<Rightarrow> 0
                   | Some p \<Rightarrow> (case p of [] \<Rightarrow> 1 | i # up \<Rightarrow> Suc (length (kids doc up) - i))))"
    by simp
next
  fix doc :: xmlDoc and node :: "xmlNodePtr option" and p :: xmlNodePtr
  assume "node = Some p" and "\<not> node_is_element doc p"
  then show "((doc, node_next doc p), (doc, node)) \<in> measure (\<lambda>(doc, node). case node of None \<Rightarrow> 0
                   | Some p \<Rightarrow> (case p of [] \<Rightarrow> 1 | i # up \<Rightarrow> Suc (length (kids doc up) - i)))"
    by (cases p) (auto simp: node_next_def)
qed

declare skip_dummy_loop.simps [simp del]

definition xml_rd_skip_dummy :: "xml_rd \<Rightarrow> xml_rd" where
  "xml_rd_skip_dummy xml = xml\<lparr>rd_node := skip_dummy_loop (rd_doc xml) (rd_node xml)\<rparr>"

definition xml_rd_node_invalidate_value :: "xml_rd \<Rightarrow> xml_rd" where
  "xml_rd_node_invalidate_value xml = xml\<lparr>rd_text := None\<rparr>"

text \<open>The two loops of \<^verbatim>\<open>xml_rd_ns_subst_lookup\<close>: over the cache, then over the rules.\<close>

fun cache_lookup :: "xml_ns list \<Rightarrow> string \<Rightarrow> string option" where
  "cache_lookup [] href = None"
| "cache_lookup (e # es) href =
     (if href = ns_uri e then Some (ns_prefix e) else cache_lookup es href)"

fun rules_lookup :: "fnmatch_fn \<Rightarrow> xml_ns list \<Rightarrow> string \<Rightarrow> string option" where
  "rules_lookup fnm [] href = None"
| "rules_lookup fnm (r # rs) href =
     (if fnm (ns_uri r) href then Some (ns_prefix r) else rules_lookup fnm rs href)"

definition xml_rd_ns_subst_lookup ::
    "fnmatch_fn \<Rightarrow> xml_rd \<Rightarrow> string option \<Rightarrow> string \<Rightarrow> string option \<times> xml_rd" where
  "xml_rd_ns_subst_lookup fnm xml prefix href =
     (case rd_subst_rules xml of
        None \<Rightarrow> (prefix, xml)
      | Some rules \<Rightarrow>
          (case cache_lookup (rd_subst_cache xml) href of
             Some p \<Rightarrow> (Some p, xml)
           | None \<Rightarrow>
               (case rules_lookup fnm rules href of
                  None \<Rightarrow> (prefix, xml)
                | Some p \<Rightarrow>
                    (Some p,
                     xml\<lparr>rd_subst_cache_cap :=
                           (if length (rd_subst_cache xml) = rd_subst_cache_cap xml
                            then (if rd_subst_cache_cap xml = 0 then 4
                                  else rd_subst_cache_cap xml * 2)
                            else rd_subst_cache_cap xml),
                         rd_subst_cache :=
                           rd_subst_cache xml @ [\<lparr>ns_prefix = p, ns_uri = href\<rparr>]\<rparr>))))"

text \<open>
  \<^verbatim>\<open>xml_rd_node_switched\<close>. \<^verbatim>\<open>g_string_truncate\<close> is \<open>take\<close>; the name is the part of
  the path from the saved length on.
\<close>

definition xml_rd_node_switched :: "fnmatch_fn \<Rightarrow> xml_rd \<Rightarrow> xml_rd" where
  "xml_rd_node_switched fnm xml0 =
     (let xml1 = xml_rd_node_invalidate_value xml0;
          pathlen = (if rd_depth xml1 \<noteq> 0 then rd_pathlen xml1 ! (rd_depth xml1 - 1) else 0);
          xml2 = xml1\<lparr>rd_path := take pathlen (rd_path xml1)\<rparr>
      in case rd_node xml2 of
           None \<Rightarrow> xml2\<lparr>rd_name := None\<rparr>
         | Some p \<Rightarrow>
             (let (prefix, xml3) =
                    (case node_ns (rd_doc xml2) p of
                       None \<Rightarrow> (None, xml2)
                     | Some ns \<Rightarrow> xml_rd_ns_subst_lookup fnm xml2 (xmlns_prefix ns) (xmlns_href ns));
                  xml4 = (case prefix of
                            None \<Rightarrow> xml3
                          | Some pfx \<Rightarrow> xml3\<lparr>rd_path := rd_path xml3 @ pfx @ '':''\<rparr>);
                  xml5 = xml4\<lparr>rd_path := rd_path xml4 @ node_name (rd_doc xml4) p\<rparr>
              in xml5\<lparr>rd_name := Some (drop pathlen (rd_path xml5))\<rparr>))"

definition xml_rd_depth :: "xml_rd \<Rightarrow> nat" where
  "xml_rd_depth xml = rd_depth xml"

definition xml_rd_end :: "xml_rd \<Rightarrow> bool" where
  "xml_rd_end xml = (rd_node xml = None)"

definition xml_rd_next :: "fnmatch_fn \<Rightarrow> xml_rd \<Rightarrow> xml_rd" where
  "xml_rd_next fnm xml =
     (case rd_node xml of
        None \<Rightarrow> xml
      | Some p \<Rightarrow>
          xml_rd_node_switched fnm
            (xml_rd_skip_dummy (xml\<lparr>rd_node := node_next (rd_doc xml) p\<rparr>)))"

text \<open>
  \<^verbatim>\<open>xml_rd_enter\<close>. The length stack doubles when the depth reaches its capacity; the new
  cells are not initialised by the source and are written before they are read.
\<close>

definition xml_rd_enter :: "fnmatch_fn \<Rightarrow> xml_rd \<Rightarrow> xml_rd" where
  "xml_rd_enter fnm xml =
     (case rd_node xml of
        None \<Rightarrow> xml
      | Some p \<Rightarrow>
          (let xml1 = (if rd_depth xml = rd_pathlen_cap xml
                       then xml\<lparr>rd_pathlen_cap := rd_pathlen_cap xml * 2,
                                rd_pathlen := rd_pathlen xml @ replicate (rd_pathlen_cap xml) 0\<rparr>
                       else xml);
               xml2 = xml1\<lparr>rd_path := rd_path xml1 @ ''/''\<rparr>;
               xml3 = xml2\<lparr>rd_pathlen := (rd_pathlen xml2)[rd_depth xml2 := length (rd_path xml2)]\<rparr>;
               xml4 = xml3\<lparr>rd_parent := Some p\<rparr>;
               xml5 = xml_rd_skip_dummy (xml4\<lparr>rd_node := node_children (rd_doc xml4) p\<rparr>);
               xml6 = xml5\<lparr>rd_depth := rd_depth xml5 + 1\<rparr>
           in xml_rd_node_switched fnm (xml_rd_skip_dummy xml6)))"

definition xml_rd_leave :: "fnmatch_fn \<Rightarrow> xml_rd \<Rightarrow> xml_rd" where
  "xml_rd_leave fnm xml =
     (if rd_depth xml > 0
      then (let xml1 = xml\<lparr>rd_depth := rd_depth xml - 1\<rparr>;
                xml2 = xml1\<lparr>rd_node := rd_parent xml1\<rparr>;
                xml3 = (case rd_node xml2 of
                          None \<Rightarrow> xml2
                        | Some p \<Rightarrow> xml2\<lparr>rd_parent := node_parent p\<rparr>)
            in xml_rd_node_switched fnm xml3)
      else xml)"

definition xml_rd_node_name :: "xml_rd \<Rightarrow> string option" where
  "xml_rd_node_name xml = rd_name xml"

definition xml_rd_node_path :: "xml_rd \<Rightarrow> string option" where
  "xml_rd_node_path xml = (if rd_node xml \<noteq> None then Some (rd_path xml) else None)"

text \<open>
  \<^verbatim>\<open>xml_rd_deep_next\<close>: enter, then leave and step to the next sibling while the reader
  is at the end of a level deeper than \<^verbatim>\<open>depth + 1\<close>. The argument is an
  \<^verbatim>\<open>unsigned int\<close>, so \<^verbatim>\<open>depth + 1\<close> wraps around.
\<close>

lemma rd_depth_node_switched [simp]:
  "rd_depth (xml_rd_node_switched fnm xml) = rd_depth xml"
  by (simp add: xml_rd_node_switched_def xml_rd_node_invalidate_value_def
      xml_rd_ns_subst_lookup_def Let_def split: option.splits prod.splits)

lemma rd_depth_next [simp]: "rd_depth (xml_rd_next fnm xml) = rd_depth xml"
  by (simp add: xml_rd_next_def xml_rd_skip_dummy_def split: option.splits)

lemma rd_depth_leave [simp]: "rd_depth (xml_rd_leave fnm xml) = rd_depth xml - 1"
  by (simp add: xml_rd_leave_def Let_def split: option.splits)

function deep_next_loop :: "fnmatch_fn \<Rightarrow> xml_rd \<Rightarrow> 32 word \<Rightarrow> xml_rd" where
  "deep_next_loop fnm xml depth =
     (if xml_rd_end xml \<and> xml_rd_depth xml > unat (depth + 1)
      then deep_next_loop fnm (xml_rd_next fnm (xml_rd_leave fnm xml)) depth
      else xml)"
  by pat_completeness auto
termination
  by (relation "measure (\<lambda>(fnm, xml, depth). rd_depth xml)") (auto simp: xml_rd_depth_def)

declare deep_next_loop.simps [simp del]

definition xml_rd_deep_next :: "fnmatch_fn \<Rightarrow> xml_rd \<Rightarrow> 32 word \<Rightarrow> xml_rd" where
  "xml_rd_deep_next fnm xml depth = deep_next_loop fnm (xml_rd_enter fnm xml) depth"

text \<open>
  \<^verbatim>\<open>xml_rd_begin\<close>. The parser \<^verbatim>\<open>xmlParseMemory\<close> is external and is a parameter: it gives
  a document or fails; \<open>xml_rd_open\<close> is what the function does with the document.
  \<^verbatim>\<open>xmlDocGetRootElement\<close> is the first element among the top-level nodes. A failure of
  the source is a value of \<open>error\<close>: an error string it returns, or the abort of a failed
  \<^verbatim>\<open>log_assert\<close>.
\<close>

datatype error = ERROR string | LOG_ASSERT_FAILED

type_synonym xml_parser = "string \<Rightarrow> xmlDoc option"

definition xmlDocGetRootElement :: "xmlDoc \<Rightarrow> xmlNodePtr option" where
  "xmlDocGetRootElement doc = skip_dummy_loop doc (node_children doc [])"

definition xml_rd_new :: "xmlDoc \<Rightarrow> xml_ns list option \<Rightarrow> xml_rd" where
  "xml_rd_new doc ns =
     \<lparr>rd_doc = doc, rd_node = xmlDocGetRootElement doc, rd_parent = None, rd_name = None,
      rd_path = [], rd_pathlen = replicate 8 0, rd_pathlen_cap = 8, rd_text = None,
      rd_depth = 0, rd_subst_rules = ns, rd_subst_cache = [], rd_subst_cache_cap = 0\<rparr>"

definition xml_rd_open :: "fnmatch_fn \<Rightarrow> xmlDoc \<Rightarrow> xml_ns list option \<Rightarrow> xml_rd" where
  "xml_rd_open fnm doc ns = xml_rd_node_switched fnm (xml_rd_skip_dummy (xml_rd_new doc ns))"

definition xml_rd_begin ::
    "xml_parser \<Rightarrow> fnmatch_fn \<Rightarrow> string \<Rightarrow> nat \<Rightarrow> xml_ns list option \<Rightarrow> error + xml_rd" where
  "xml_rd_begin xmlParseMemory fnm xml_text xml_len ns =
     (case xmlParseMemory (take xml_len xml_text) of
        None \<Rightarrow> Inl (ERROR ''Failed to parse XML'')
      | Some doc \<Rightarrow> Inr (xml_rd_open fnm doc ns))"

text \<open>
  \<^verbatim>\<open>xml_rd_node_value\<close>. \<^verbatim>\<open>xmlNodeGetContent\<close> of an element is the text of its text and
  CDATA descendants, in document order. \<^verbatim>\<open>g_strstrip\<close> removes leading and trailing
  ASCII white space.
\<close>

fun text_of :: "xmlNode \<Rightarrow> string" where
  "text_of (XML_ELEMENT_NODE n ns cs) = concat (map text_of cs)"
| "text_of (XML_TEXT_NODE s) = s"
| "text_of (XML_CDATA_SECTION_NODE s) = s"
| "text_of (XML_COMMENT_NODE s) = []"
| "text_of (XML_PI_NODE t s) = []"

definition xmlNodeGetContent :: "xmlDoc \<Rightarrow> xmlNodePtr \<Rightarrow> string option" where
  "xmlNodeGetContent doc p =
     (case deref doc p of
        None \<Rightarrow> None
      | Some (XML_COMMENT_NODE s) \<Rightarrow> Some s
      | Some (XML_PI_NODE t s) \<Rightarrow> Some s
      | Some n \<Rightarrow> Some (text_of n))"

definition g_ascii_isspace :: "char \<Rightarrow> bool" where
  "g_ascii_isspace c =
     (c = CHR '' '' \<or> c = CHR 0x09 \<or> c = CHR 0x0A \<or> c = CHR 0x0C \<or> c = CHR 0x0D)"

definition g_strstrip :: "string \<Rightarrow> string" where
  "g_strstrip s = rev (dropWhile g_ascii_isspace (rev (dropWhile g_ascii_isspace s)))"

definition xml_rd_node_value :: "xml_rd \<Rightarrow> string option \<times> xml_rd" where
  "xml_rd_node_value xml =
     (case (rd_text xml, rd_node xml) of
        (None, Some p) \<Rightarrow>
          (let t = map_option g_strstrip (xmlNodeGetContent (rd_doc xml) p)
           in (t, xml\<lparr>rd_text := t\<rparr>))
      | other \<Rightarrow> (rd_text xml, xml))"

text \<open>
  \<^verbatim>\<open>strtoul(s, &end, 10)\<close> of the C library, with a 64-bit \<^verbatim>\<open>unsigned long\<close>: optional
  white space, an optional sign, then decimal digits. The result is the value and the rest
  of the string (\<^verbatim>\<open>end\<close>); with no digits nothing is converted and the rest is the whole
  string. A value beyond \<^verbatim>\<open>ULONG_MAX\<close> gives \<^verbatim>\<open>ULONG_MAX\<close>; a minus sign negates the
  value in the unsigned type.
\<close>

definition isspace_c :: "char \<Rightarrow> bool" where
  "isspace_c c =
     (c = CHR '' '' \<or> c = CHR 0x09 \<or> c = CHR 0x0A \<or> c = CHR 0x0B \<or> c = CHR 0x0C
      \<or> c = CHR 0x0D)"

definition isdigit_c :: "char \<Rightarrow> bool" where
  "isdigit_c c = (48 \<le> (of_char c :: nat) \<and> (of_char c :: nat) \<le> 57)"

fun strtoul_digits :: "string \<Rightarrow> nat \<Rightarrow> nat \<times> string" where
  "strtoul_digits [] acc = (acc, [])"
| "strtoul_digits (c # cs) acc =
     (if isdigit_c c then strtoul_digits cs (acc * 10 + (of_char c - 48)) else (acc, c # cs))"

definition ULONG_MAX :: nat where
  "ULONG_MAX = 2 ^ 64 - 1"

definition strtoul :: "string \<Rightarrow> 64 word \<times> string" where
  "strtoul s =
     (let s1 = dropWhile isspace_c s;
          (neg, s2) = (case s1 of
                         [] \<Rightarrow> (False, s1)
                       | c # r \<Rightarrow> if c = CHR ''-'' then (True, r)
                                  else if c = CHR ''+'' then (False, r) else (False, s1))
      in case s2 of
           [] \<Rightarrow> (0, s)
         | c # r \<Rightarrow>
             if \<not> isdigit_c c then (0, s)
             else (let (n, e) = strtoul_digits s2 0
                   in if n > ULONG_MAX then (of_nat ULONG_MAX, e)
                      else if neg then (- of_nat n, e) else (of_nat n, e)))"

text \<open>
  \<^verbatim>\<open>xml_rd_node_value_uint\<close>. \<^verbatim>\<open>SANE_Word\<close> is declared in the SANE headers, not in this
  file; it is a 32-bit integer type. Whether it is signed is a parameter of the model:
  \<open>sane_word_cast\<close> is the conversion \<^verbatim>\<open>(unsigned long) (SANE_Word) v\<close>, and the stored
  result is the 32-bit pattern of the value.
\<close>

definition sane_word_cast :: "bool \<Rightarrow> 64 word \<Rightarrow> 64 word" where
  "sane_word_cast is_signed v =
     (if is_signed then scast (ucast v :: 32 word) else ucast (ucast v :: 32 word))"

definition xml_rd_node_value_uint :: "bool \<Rightarrow> xml_rd \<Rightarrow> (error + 32 word) \<times> xml_rd" where
  "xml_rd_node_value_uint is_signed xml =
     (let (s, xml1) = xml_rd_node_value xml
      in case s of
           None \<Rightarrow> (Inl LOG_ASSERT_FAILED, xml1)
         | Some str \<Rightarrow>
             (let (v, e) = strtoul str
              in if e = str \<or> e \<noteq> [] \<or> v \<noteq> sane_word_cast is_signed v
                 then (Inl (ERROR ((case xml_rd_node_name xml1 of None \<Rightarrow> ''(null)'' | Some n \<Rightarrow> n)
                                   @ '': invalid numerical value'')), xml1)
                 else (Inr (ucast v), xml1)))"

section \<open>The writer\<close>

text \<open>
  \<^verbatim>\<open>struct xml_wr_node\<close>. The \<^verbatim>\<open>children\<close> pointer with the \<^verbatim>\<open>next\<close> chain is the list
  of children, first the head of the chain; the \<^verbatim>\<open>parent\<close> link is the nesting of the tree.
  A C string is the list of its characters before the terminating NUL.
\<close>

record xml_attr =
  attr_name :: string
  attr_value :: string

datatype xml_wr_node =
  Xml_wr_node (wr_name: string) (wr_value: "string option")
    (wr_attrs: "xml_attr list option") (wr_children: "xml_wr_node list")

text \<open>
  \<^verbatim>\<open>struct xml_wr\<close>. \<^verbatim>\<open>xml_wr_add_node\<close> links a new node at the head of the children of
  the current node, and \<^verbatim>\<open>xml_wr_enter_attr\<close> makes that new node current. So the current
  node is always reached from the root by following \<^verbatim>\<open>children\<close> (the head of the chain)
  some number of times: that number is \<open>wr_current\<close>, and \<^verbatim>\<open>current->parent\<close> is one step
  less. The namespace table is the list of its entries before the terminating one.
\<close>

record xml_wr =
  wr_root :: xml_wr_node
  wr_current :: nat
  wr_ns :: "xml_ns list"

definition xml_wr_node_new :: "string \<Rightarrow> string option \<Rightarrow> xml_attr list option \<Rightarrow> xml_wr_node" where
  "xml_wr_node_new name val attrs = Xml_wr_node name val attrs []"

definition xml_wr_begin :: "string \<Rightarrow> xml_ns list \<Rightarrow> xml_wr" where
  "xml_wr_begin root ns =
     \<lparr>wr_root = xml_wr_node_new root None None, wr_current = 0, wr_ns = ns\<rparr>"

definition xml_wr_format_indent :: "string \<Rightarrow> nat \<Rightarrow> string" where
  "xml_wr_format_indent buf level = buf @ concat (replicate level ''  '')"

fun xml_wr_format_value :: "string \<Rightarrow> string \<Rightarrow> string" where
  "xml_wr_format_value buf [] = buf"
| "xml_wr_format_value buf (c # rest) =
     xml_wr_format_value
       (if c = CHR ''&'' then buf @ ''&amp;''
        else if c = CHR ''<'' then buf @ ''&lt;''
        else if c = CHR ''>'' then buf @ ''&gt;''
        else if c = CHR 0x22 then buf @ ''&quot;''
        else if c = CHR 0x27 then buf @ ''&apos;''
        else buf @ [c]) rest"

fun format_ns :: "string \<Rightarrow> xml_ns list \<Rightarrow> string" where
  "format_ns buf [] = buf"
| "format_ns buf (n # ns) =
     format_ns (buf @ '' xmlns:'' @ ns_prefix n @ ''='' @ [CHR 0x22] @ ns_uri n @ [CHR 0x22]) ns"

fun format_attrs :: "string \<Rightarrow> xml_attr list \<Rightarrow> string" where
  "format_attrs buf [] = buf"
| "format_attrs buf (a # as) =
     format_attrs (buf @ '' '' @ attr_name a @ ''='' @ [CHR 0x22] @ attr_value a @ [CHR 0x22]) as"

fun xml_wr_format_node :: "xml_ns list \<Rightarrow> string \<Rightarrow> xml_wr_node \<Rightarrow> nat \<Rightarrow> bool \<Rightarrow> string"
  and format_children :: "xml_ns list \<Rightarrow> string \<Rightarrow> xml_wr_node list \<Rightarrow> nat \<Rightarrow> bool \<Rightarrow> string"
where
  "xml_wr_format_node ns buf (Xml_wr_node name val attrs children) level compact =
     (let buf1 = (if \<not> compact then xml_wr_format_indent buf level else buf);
          buf2 = buf1 @ ''<'' @ name;
          buf3 = (if level = 0 then format_ns buf2 ns else buf2);
          buf4 = (case attrs of None \<Rightarrow> buf3 | Some as \<Rightarrow> format_attrs buf3 as);
          buf5 = buf4 @ ''>''
      in if children \<noteq> []
         then (let buf6 = (if \<not> compact then buf5 @ [CHR 0x0A] else buf5);
                   buf7 = format_children ns buf6 children (level + 1) compact;
                   buf8 = (if \<not> compact then xml_wr_format_indent buf7 level else buf7);
                   buf9 = buf8 @ ''</'' @ name @ ''>''
               in if \<not> compact \<and> level \<noteq> 0 then buf9 @ [CHR 0x0A] else buf9)
         else (let buf6 = (case val of None \<Rightarrow> buf5 | Some v \<Rightarrow> xml_wr_format_value buf5 v);
                   buf7 = buf6 @ ''</'' @ name @ ''>''
               in if \<not> compact then buf7 @ [CHR 0x0A] else buf7))"
| "format_children ns buf [] level compact = buf"
| "format_children ns buf (node2 # rest) level compact =
     format_children ns (xml_wr_format_node ns buf node2 level compact) rest level compact"

text \<open>
  \<^verbatim>\<open>xml_wr_revert_children\<close>: the loop reverts each child, then links it in front of the
  ones already seen.
\<close>

fun xml_wr_revert_children :: "xml_wr_node \<Rightarrow> xml_wr_node"
  and revert_loop :: "xml_wr_node list \<Rightarrow> xml_wr_node list \<Rightarrow> xml_wr_node list"
where
  "xml_wr_revert_children (Xml_wr_node name val attrs children) =
     Xml_wr_node name val attrs (revert_loop children [])"
| "revert_loop [] prev = prev"
| "revert_loop (node2 # rest) prev = revert_loop rest (xml_wr_revert_children node2 # prev)"

definition xml_decl :: string where
  "xml_decl = ''<?xml version='' @ [CHR 0x22] @ ''1.0'' @ [CHR 0x22] @ '' encoding=''
              @ [CHR 0x22] @ ''UTF-8'' @ [CHR 0x22] @ ''?>''"

definition xml_wr_finish_internal :: "xml_wr \<Rightarrow> bool \<Rightarrow> string" where
  "xml_wr_finish_internal xml compact =
     (let buf = xml_decl;
          buf1 = (if \<not> compact then buf @ [CHR 0x0A] else buf);
          root = xml_wr_revert_children (wr_root xml)
      in xml_wr_format_node (wr_ns xml) buf1 root 0 compact)"

definition xml_wr_finish :: "xml_wr \<Rightarrow> string" where
  "xml_wr_finish xml = xml_wr_finish_internal xml False"

definition xml_wr_finish_compact :: "xml_wr \<Rightarrow> string" where
  "xml_wr_finish_compact xml = xml_wr_finish_internal xml True"

text \<open>Link a node at the head of the children of the node \<open>k\<close> steps down from the root.\<close>

fun add_child_at :: "nat \<Rightarrow> xml_wr_node \<Rightarrow> xml_wr_node \<Rightarrow> xml_wr_node" where
  "add_child_at 0 node (Xml_wr_node name val attrs children) =
     Xml_wr_node name val attrs (node # children)"
| "add_child_at (Suc k) node (Xml_wr_node name val attrs children) =
     (case children of
        [] \<Rightarrow> Xml_wr_node name val attrs children
      | c # rest \<Rightarrow> Xml_wr_node name val attrs (add_child_at k node c # rest))"

definition xml_wr_add_node :: "xml_wr \<Rightarrow> xml_wr_node \<Rightarrow> xml_wr" where
  "xml_wr_add_node xml node = xml\<lparr>wr_root := add_child_at (wr_current xml) node (wr_root xml)\<rparr>"

definition xml_wr_add_text_attr ::
    "xml_wr \<Rightarrow> string \<Rightarrow> string option \<Rightarrow> xml_attr list option \<Rightarrow> xml_wr" where
  "xml_wr_add_text_attr xml name val attrs = xml_wr_add_node xml (xml_wr_node_new name val attrs)"

definition xml_wr_add_text :: "xml_wr \<Rightarrow> string \<Rightarrow> string option \<Rightarrow> xml_wr" where
  "xml_wr_add_text xml name val = xml_wr_add_text_attr xml name val None"

text \<open>\<^verbatim>\<open>sprintf(buf, "%u", value)\<close>: the decimal digits of a 32-bit \<^verbatim>\<open>unsigned int\<close>.\<close>

fun decimal :: "nat \<Rightarrow> string" where
  "decimal n = (if n < 10 then [char_of (48 + n)] else decimal (n div 10) @ [char_of (48 + n mod 10)])"

declare decimal.simps [simp del]

definition sprintf_u :: "32 word \<Rightarrow> string" where
  "sprintf_u v = decimal (unat v)"

definition xml_wr_add_uint_attr ::
    "xml_wr \<Rightarrow> string \<Rightarrow> 32 word \<Rightarrow> xml_attr list option \<Rightarrow> xml_wr" where
  "xml_wr_add_uint_attr xml name v attrs = xml_wr_add_text_attr xml name (Some (sprintf_u v)) attrs"

definition xml_wr_add_uint :: "xml_wr \<Rightarrow> string \<Rightarrow> 32 word \<Rightarrow> xml_wr" where
  "xml_wr_add_uint xml name v = xml_wr_add_uint_attr xml name v None"

definition xml_wr_add_bool_attr ::
    "xml_wr \<Rightarrow> string \<Rightarrow> bool \<Rightarrow> xml_attr list option \<Rightarrow> xml_wr" where
  "xml_wr_add_bool_attr xml name v attrs =
     xml_wr_add_text_attr xml name (Some (if v then ''true'' else ''false'')) attrs"

definition xml_wr_add_bool :: "xml_wr \<Rightarrow> string \<Rightarrow> bool \<Rightarrow> xml_wr" where
  "xml_wr_add_bool xml name v = xml_wr_add_bool_attr xml name v None"

definition xml_wr_enter_attr :: "xml_wr \<Rightarrow> string \<Rightarrow> xml_attr list option \<Rightarrow> xml_wr" where
  "xml_wr_enter_attr xml name attrs =
     (let xml1 = xml_wr_add_node xml (xml_wr_node_new name None attrs)
      in xml1\<lparr>wr_current := wr_current xml1 + 1\<rparr>)"

definition xml_wr_enter :: "xml_wr \<Rightarrow> string \<Rightarrow> xml_wr" where
  "xml_wr_enter xml name = xml_wr_enter_attr xml name None"

text \<open>\<^verbatim>\<open>xml_wr_leave\<close>: the assertion fails on the root, which has no parent.\<close>

definition xml_wr_leave :: "xml_wr \<Rightarrow> error + xml_wr" where
  "xml_wr_leave xml =
     (if wr_current xml = 0 then Inl LOG_ASSERT_FAILED
      else Inr (xml\<lparr>wr_current := wr_current xml - 1\<rparr>))"

section \<open>The pretty-printer\<close>

text \<open>
  \<^verbatim>\<open>xml_format\<close>. The parser and \<^verbatim>\<open>xmlDocDumpFormatMemory\<close> are external and are
  parameters; the second gives the formatted bytes (\<^verbatim>\<open>out_data\<close>), and \<^verbatim>\<open>out_size\<close> is
  their count. The file is the list of the bytes written to it so far; \<^verbatim>\<open>fwrite\<close>
  appends. The result is the returned flag and the file.
\<close>

type_synonym xml_dumper = "xmlDoc \<Rightarrow> string"

definition xml_format ::
    "xml_parser \<Rightarrow> xml_dumper \<Rightarrow> string \<Rightarrow> string \<Rightarrow> nat \<Rightarrow> bool \<times> string" where
  "xml_format xmlParseMemory xmlDocDumpFormatMemory fp xml_text xml_len =
     (case xmlParseMemory (take xml_len xml_text) of
        None \<Rightarrow> (False, fp)
      | Some doc \<Rightarrow>
          (let out_data = xmlDocDumpFormatMemory doc;
               out_size = int (length out_data);
               fp1 = (if out_size > 0 then fp @ take (nat out_size) out_data else fp)
           in (out_size > 0, fp1)))"

section \<open>The specification's wording, and inputs for the examples\<close>

text \<open>
  The namespace resolution as the specification words it: with no rule set the document's
  own prefix; else the prefix of the cache entry with exactly this URI; else the prefix of
  the first rule whose pattern matches, with a new cache entry appended; else the
  document's own prefix and no new entry. The result is the prefix and the cache.
\<close>

definition resolve_spec ::
    "fnmatch_fn \<Rightarrow> xml_ns list option \<Rightarrow> xml_ns list \<Rightarrow> string option \<Rightarrow> string
      \<Rightarrow> string option \<times> xml_ns list" where
  "resolve_spec fnm rules cache prefix uri =
     (case rules of
        None \<Rightarrow> (prefix, cache)
      | Some rs \<Rightarrow>
          (case find (\<lambda>e. ns_uri e = uri) cache of
             Some e \<Rightarrow> (Some (ns_prefix e), cache)
           | None \<Rightarrow>
               (case find (\<lambda>r. fnm (ns_uri r) uri) rs of
                  Some r \<Rightarrow> (Some (ns_prefix r), cache @ [\<lparr>ns_prefix = ns_prefix r, ns_uri = uri\<rparr>])
                | None \<Rightarrow> (prefix, cache))))"

text \<open>
  The writer's operations as a list, run in order; \<^verbatim>\<open>xml_wr_leave\<close> can fail.
\<close>

datatype wr_op =
    AddText string "string option" "xml_attr list option"
  | Enter string "xml_attr list option"
  | Leave

fun wr_run :: "wr_op list \<Rightarrow> xml_wr \<Rightarrow> error + xml_wr" where
  "wr_run [] xml = Inr xml"
| "wr_run (AddText name val attrs # ops) xml = wr_run ops (xml_wr_add_text_attr xml name val attrs)"
| "wr_run (Enter name attrs # ops) xml = wr_run ops (xml_wr_enter_attr xml name attrs)"
| "wr_run (Leave # ops) xml =
     (case xml_wr_leave xml of Inl e \<Rightarrow> Inl e | Inr xml1 \<Rightarrow> wr_run ops xml1)"

text \<open>
  The tree the specification describes: every node's children in the order they were
  added. A new node goes after the children its parent already has, and the current node
  is the last child at each level.
\<close>

fun append_child_at :: "nat \<Rightarrow> xml_wr_node \<Rightarrow> xml_wr_node \<Rightarrow> xml_wr_node" where
  "append_child_at 0 node (Xml_wr_node name val attrs children) =
     Xml_wr_node name val attrs (children @ [node])"
| "append_child_at (Suc k) node (Xml_wr_node name val attrs children) =
     (if children = [] then Xml_wr_node name val attrs children
      else Xml_wr_node name val attrs
             (butlast children @ [append_child_at k node (last children)]))"

fun in_order_run :: "wr_op list \<Rightarrow> xml_wr_node \<times> nat \<Rightarrow> (xml_wr_node \<times> nat) option" where
  "in_order_run [] st = Some st"
| "in_order_run (AddText name val attrs # ops) (root, cur) =
     in_order_run ops (append_child_at cur (Xml_wr_node name val attrs []) root, cur)"
| "in_order_run (Enter name attrs # ops) (root, cur) =
     in_order_run ops (append_child_at cur (Xml_wr_node name None attrs []) root, cur + 1)"
| "in_order_run (Leave # ops) (root, cur) =
     (if cur = 0 then None else in_order_run ops (root, cur - 1))"

text \<open>
  A pattern matcher for the examples: literal characters, \<^verbatim>\<open>?\<close> and \<^verbatim>\<open>*\<close>, as
  \<^verbatim>\<open>fnmatch\<close> reads a pattern made of these.
\<close>

fun glob :: "string \<Rightarrow> string \<Rightarrow> bool" where
  "glob [] s = (s = [])"
| "glob (c # p) [] = (c = CHR ''*'' \<and> glob p [])"
| "glob (c # p) (d # s) =
     (if c = CHR ''*'' then (glob p (d # s) \<or> glob (c # p) s)
      else ((c = CHR ''?'' \<or> c = d) \<and> glob p s))"

text \<open>
  Example documents, as the parser delivers them:
  \<^verbatim>\<open><a:Foo xmlns:a="urn:x:1"><a:Bar>42</a:Bar></a:Foo>\<close>,
  \<^verbatim>\<open><r><a/><b/></r>\<close>,
  \<^verbatim>\<open><r><a><x/><y/></a><b/></r>\<close>, and
  \<^verbatim>\<open><a:r xmlns:a="urn:y"><b:c xmlns:b="urn:y"/></a:r>\<close>.
\<close>

definition doc_foo :: xmlDoc where
  "doc_foo =
     [XML_ELEMENT_NODE ''Foo'' (Some \<lparr>xmlns_prefix = Some ''a'', xmlns_href = ''urn:x:1''\<rparr>)
        [XML_ELEMENT_NODE ''Bar'' (Some \<lparr>xmlns_prefix = Some ''a'', xmlns_href = ''urn:x:1''\<rparr>)
           [XML_TEXT_NODE ''42'']]]"

definition doc_rab :: xmlDoc where
  "doc_rab = [XML_ELEMENT_NODE ''r'' None [XML_ELEMENT_NODE ''a'' None [], XML_ELEMENT_NODE ''b'' None []]]"

definition doc_nested :: xmlDoc where
  "doc_nested =
     [XML_ELEMENT_NODE ''r'' None
        [XML_ELEMENT_NODE ''a'' None
           [XML_ELEMENT_NODE ''x'' None [], XML_ELEMENT_NODE ''y'' None []],
         XML_ELEMENT_NODE ''b'' None []]]"

definition doc_two_prefixes :: xmlDoc where
  "doc_two_prefixes =
     [XML_ELEMENT_NODE ''r'' (Some \<lparr>xmlns_prefix = Some ''a'', xmlns_href = ''urn:y''\<rparr>)
        [XML_ELEMENT_NODE ''c'' (Some \<lparr>xmlns_prefix = Some ''b'', xmlns_href = ''urn:y''\<rparr>) []]]"

definition rules_scan :: "xml_ns list" where
  "rules_scan = [\<lparr>ns_prefix = ''scan'', ns_uri = ''urn:x:*''\<rparr>]"

section \<open>Notions of the statements and of the proofs\<close>

inductive reachable :: "fnmatch_fn \<Rightarrow> xmlDoc \<Rightarrow> xml_ns list option \<Rightarrow> xml_rd \<Rightarrow> bool"
  for fnm :: fnmatch_fn and doc :: xmlDoc and ns :: "xml_ns list option" where
  reach_begin: "reachable fnm doc ns (xml_rd_open fnm doc ns)"
| reach_next: "reachable fnm doc ns xml \<Longrightarrow> reachable fnm doc ns (xml_rd_next fnm xml)"
| reach_enter: "reachable fnm doc ns xml \<Longrightarrow> reachable fnm doc ns (xml_rd_enter fnm xml)"
| reach_leave: "reachable fnm doc ns xml \<Longrightarrow> reachable fnm doc ns (xml_rd_leave fnm xml)"
| reach_deep_next:
    "reachable fnm doc ns xml \<Longrightarrow> reachable fnm doc ns (xml_rd_deep_next fnm xml depth)"
| reach_value: "reachable fnm doc ns xml \<Longrightarrow> reachable fnm doc ns (snd (xml_rd_node_value xml))"
| reach_value_uint:
    "reachable fnm doc ns xml \<Longrightarrow>
     reachable fnm doc ns (snd (xml_rd_node_value_uint is_signed xml))"

definition subst_prefix :: "fnmatch_fn \<Rightarrow> xml_ns list option \<Rightarrow> string option \<Rightarrow> string \<Rightarrow> string option" where
  "subst_prefix fnm rules prefix href =
     (case rules of
        None \<Rightarrow> prefix
      | Some rs \<Rightarrow> (case rules_lookup fnm rs href of None \<Rightarrow> prefix | Some p \<Rightarrow> Some p))"

definition qname :: "fnmatch_fn \<Rightarrow> xml_ns list option \<Rightarrow> xmlDoc \<Rightarrow> xmlNodePtr \<Rightarrow> string" where
  "qname fnm rules doc p =
     (case (case node_ns doc p of
              None \<Rightarrow> None
            | Some n \<Rightarrow> subst_prefix fnm rules (xmlns_prefix n) (xmlns_href n)) of
        None \<Rightarrow> node_name doc p
      | Some pfx \<Rightarrow> pfx @ '':'' @ node_name doc p)"

definition cache_ok :: "fnmatch_fn \<Rightarrow> xml_rd \<Rightarrow> bool" where
  "cache_ok fnm xml =
     (distinct (map ns_uri (rd_subst_cache xml))
      \<and> (\<forall>e \<in> set (rd_subst_cache xml).
            \<exists>rs. rd_subst_rules xml = Some rs
                 \<and> rules_lookup fnm rs (ns_uri e) = Some (ns_prefix e)))"

definition saved_len :: "xml_rd \<Rightarrow> nat" where
  "saved_len xml = (if rd_depth xml \<noteq> 0 then rd_pathlen xml ! (rd_depth xml - 1) else 0)"

definition rd_inv :: "fnmatch_fn \<Rightarrow> xml_rd \<Rightarrow> bool" where
  "rd_inv fnm xml =
     (cache_ok fnm xml
      \<and> 0 < rd_pathlen_cap xml \<and> length (rd_pathlen xml) = rd_pathlen_cap xml
      \<and> rd_depth xml \<le> rd_pathlen_cap xml
      \<and> sorted (take (rd_depth xml) (rd_pathlen xml))
      \<and> saved_len xml \<le> length (rd_path xml)
      \<and> (case rd_node xml of
            None \<Rightarrow> rd_name xml = None \<and> rd_text xml = None
                    \<and> length (rd_path xml) = saved_len xml
          | Some p \<Rightarrow>
              rd_path xml = take (saved_len xml) (rd_path xml)
                            @ qname fnm (rd_subst_rules xml) (rd_doc xml) p
              \<and> rd_name xml = Some (qname fnm (rd_subst_rules xml) (rd_doc xml) p)
              \<and> (rd_text xml = None
                  \<or> rd_text xml = map_option g_strstrip (xmlNodeGetContent (rd_doc xml) p))))"

definition rd_pre :: "fnmatch_fn \<Rightarrow> xml_rd \<Rightarrow> bool" where
  "rd_pre fnm xml =
     (cache_ok fnm xml
      \<and> 0 < rd_pathlen_cap xml \<and> length (rd_pathlen xml) = rd_pathlen_cap xml
      \<and> rd_depth xml \<le> rd_pathlen_cap xml
      \<and> sorted (take (rd_depth xml) (rd_pathlen xml))
      \<and> saved_len xml \<le> length (rd_path xml))"

definition enter_state :: "xml_rd \<Rightarrow> xmlNodePtr \<Rightarrow> xml_rd" where
  "enter_state xml p =
     xml\<lparr>rd_pathlen_cap := (if rd_depth xml = rd_pathlen_cap xml then rd_pathlen_cap xml * 2
                             else rd_pathlen_cap xml),
         rd_path := rd_path xml @ ''/'',
         rd_pathlen := (if rd_depth xml = rd_pathlen_cap xml
                        then rd_pathlen xml @ replicate (rd_pathlen_cap xml) 0
                        else rd_pathlen xml)[rd_depth xml := Suc (length (rd_path xml))],
         rd_parent := Some p,
         rd_depth := Suc (rd_depth xml),
         rd_node := skip_dummy_loop (rd_doc xml)
                      (skip_dummy_loop (rd_doc xml) (node_children (rd_doc xml) p))\<rparr>"

text \<open>
  The value of a string of decimal digits, the strings that consist of at least one digit,
  the values a \<^verbatim>\<open>SANE_Word\<close> holds as a non-negative number, and the results of
  \<^verbatim>\<open>xml_rd_node_value_uint\<close> that are the error it returns for an invalid number.
\<close>


definition digits_value :: "string \<Rightarrow> nat" where
  "digits_value ds = foldl (\<lambda>a c. a * 10 + (of_char c - 48)) 0 ds"

definition all_digits :: "string \<Rightarrow> bool" where
  "all_digits ds = (ds \<noteq> [] \<and> list_all isdigit_c ds)"

definition word_fits :: "bool \<Rightarrow> nat \<Rightarrow> bool" where
  "word_fits is_signed n = (if is_signed then n < 2 ^ 31 else n < 2 ^ 32)"

fun is_value_error :: "error + 32 word \<Rightarrow> bool" where
  "is_value_error (Inl (ERROR m)) = True"
| "is_value_error other = False"

text \<open>
  A text that does not begin, after white space and an optional sign, with a digit:
  \<^verbatim>\<open>strtoul\<close> converts nothing of it.
\<close>

definition no_number :: "string \<Rightarrow> bool" where
  "no_number s =
     (let s1 = dropWhile isspace_c s;
          s2 = (case s1 of [] \<Rightarrow> s1
                | c # r \<Rightarrow> if c = CHR ''-'' \<or> c = CHR ''+'' then r else s1)
      in case s2 of [] \<Rightarrow> True | c # r \<Rightarrow> \<not> isdigit_c c)"

text \<open>The document \<^verbatim>\<open><n>+5</n>\<close>.\<close>

definition doc_plus :: xmlDoc where
  "doc_plus = [XML_ELEMENT_NODE ''n'' None [XML_TEXT_NODE ''+5'']]"

text \<open>
  The tree the parser delivers for the document \<^verbatim>\<open><root><name>text</name></root>\<close>, for
  names without a prefix and a non-empty text without markup characters.
\<close>

definition leaf_doc :: "string \<Rightarrow> string \<Rightarrow> string \<Rightarrow> xmlDoc" where
  "leaf_doc root name txt =
     [XML_ELEMENT_NODE root None [XML_ELEMENT_NODE name None [XML_TEXT_NODE txt]]]"

text \<open>
  A caller walks a document with \<^verbatim>\<open>for (; !xml_rd_end(xml); xml_rd_deep_next(xml, depth))\<close>.
  \<open>deep_walk\<close> is this loop with a bound on the number of steps; it lists the current
  node and the depth the reader reports at each step.
\<close>

fun deep_walk :: "fnmatch_fn \<Rightarrow> 32 word \<Rightarrow> nat \<Rightarrow> xml_rd \<Rightarrow> (xmlNodePtr \<times> nat) list" where
  "deep_walk fnm floor 0 xml = []"
| "deep_walk fnm floor (Suc k) xml =
     (case rd_node xml of
        None \<Rightarrow> []
      | Some p \<Rightarrow> (p, xml_rd_depth xml) # deep_walk fnm floor k (xml_rd_deep_next fnm xml floor))"

text \<open>
  Document order: an element, then the elements below each of its children, children from
  first to last. The list holds the position of each element and its depth.
\<close>

fun preorder :: "xmlNode \<Rightarrow> xmlNodePtr \<Rightarrow> nat \<Rightarrow> (xmlNodePtr \<times> nat) list"
  and preorder_list :: "xmlNode list \<Rightarrow> nat \<Rightarrow> xmlNodePtr \<Rightarrow> nat \<Rightarrow> (xmlNodePtr \<times> nat) list"
where
  "preorder (XML_ELEMENT_NODE n ns cs) p d = (p, d) # preorder_list cs 0 p (Suc d)"
| "preorder (XML_TEXT_NODE s) p d = []"
| "preorder (XML_CDATA_SECTION_NODE s) p d = []"
| "preorder (XML_COMMENT_NODE s) p d = []"
| "preorder (XML_PI_NODE t s) p d = []"
| "preorder_list [] i up d = []"
| "preorder_list (k # ks) i up d = preorder k (i # up) d @ preorder_list ks (Suc i) up d"

text \<open>
  The movement of the reader depends only on the document and on the current node, the
  parent and the depth. The functions below are \<^verbatim>\<open>xml_rd_next\<close>, \<^verbatim>\<open>xml_rd_enter\<close>,
  \<^verbatim>\<open>xml_rd_leave\<close> and the loop of \<^verbatim>\<open>xml_rd_deep_next\<close> on these three fields.
\<close>

type_synonym rd_position = "xmlNodePtr option \<times> xmlNodePtr option \<times> nat"

definition rd_pos :: "xml_rd \<Rightarrow> rd_position" where
  "rd_pos xml = (rd_node xml, rd_parent xml, rd_depth xml)"

definition pos_next :: "xmlDoc \<Rightarrow> rd_position \<Rightarrow> rd_position" where
  "pos_next doc s =
     (case s of (n, par, d) \<Rightarrow>
        (case n of None \<Rightarrow> s | Some p \<Rightarrow> (skip_dummy_loop doc (node_next doc p), par, d)))"

definition pos_enter :: "xmlDoc \<Rightarrow> rd_position \<Rightarrow> rd_position" where
  "pos_enter doc s =
     (case s of (n, par, d) \<Rightarrow>
        (case n of None \<Rightarrow> s
         | Some p \<Rightarrow> (skip_dummy_loop doc (node_children doc p), Some p, Suc d)))"

definition pos_leave :: "rd_position \<Rightarrow> rd_position" where
  "pos_leave s =
     (case s of (n, par, d) \<Rightarrow>
        if d > 0
        then (par, (case par of None \<Rightarrow> None | Some q \<Rightarrow> node_parent q), d - 1)
        else s)"

function pos_loop :: "xmlDoc \<Rightarrow> 32 word \<Rightarrow> rd_position \<Rightarrow> rd_position" where
  "pos_loop doc fl s =
     (if fst s = None \<and> snd (snd s) > unat (fl + 1)
      then pos_loop doc fl (pos_next doc (pos_leave s))
      else s)"
  by pat_completeness auto
termination
  by (relation "measure (\<lambda>(doc, fl, s). snd (snd s))")
    (auto simp: pos_next_def pos_leave_def split: option.splits prod.splits)

declare pos_loop.simps [simp del]

fun pos_walk :: "xmlDoc \<Rightarrow> 32 word \<Rightarrow> nat \<Rightarrow> rd_position \<Rightarrow> (xmlNodePtr \<times> nat) list" where
  "pos_walk doc fl 0 s = []"
| "pos_walk doc fl (Suc k) s =
     (case fst s of
        None \<Rightarrow> []
      | Some p \<Rightarrow> (p, snd (snd s)) # pos_walk doc fl k (pos_loop doc fl (pos_enter doc s)))"

definition sib :: "xmlDoc \<Rightarrow> xmlNodePtr \<Rightarrow> nat \<Rightarrow> xmlNodePtr option" where
  "sib doc up i = (if i < length (kids doc up) then Some (i # up) else None)"

section \<open>End of document: next and enter change nothing\<close>

text \<open>
  C10. When the current node is none, \<^verbatim>\<open>xml_rd_next\<close> and \<^verbatim>\<open>xml_rd_enter\<close> return the
  reader as it was: depth, current node, parent, name, path, length stack and cached
  value (every field of the state) are unchanged.
\<close>

theorem C10_next_enter_at_end:
  "rd_node xml = None \<Longrightarrow> xml_rd_next fnm xml = xml \<and> xml_rd_enter fnm xml = xml"
  by (simp add: xml_rd_next_def xml_rd_enter_def)

theorem C10_next_enter_at_end_witness:
  "rd_node (xml_rd_next glob (xml_rd_open glob doc_foo None)) = None
   \<and> xml_rd_next glob (xml_rd_next glob (xml_rd_open glob doc_foo None))
       = xml_rd_next glob (xml_rd_open glob doc_foo None)
   \<and> xml_rd_enter glob (xml_rd_next glob (xml_rd_open glob doc_foo None))
       = xml_rd_next glob (xml_rd_open glob doc_foo None)"
proof -
  have e: "rd_node (xml_rd_next glob (xml_rd_open glob doc_foo None)) = None"
    by code_simp
  show ?thesis
    using e C10_next_enter_at_end [OF e, of glob] by simp
qed

section \<open>Namespace resolution\<close>

lemma cache_lookup_find:
  "cache_lookup cache href = map_option ns_prefix (find (\<lambda>e. ns_uri e = href) cache)"
  by (induction cache) auto

lemma rules_lookup_find:
  "rules_lookup fnm rules href = map_option ns_prefix (find (\<lambda>r. fnm (ns_uri r) href) rules)"
  by (induction rules) auto

text \<open>
  C5. \<^verbatim>\<open>xml_rd_ns_subst_lookup\<close> returns the prefix the specification describes and leaves
  the cache the specification describes; nothing else of the reader changes but the
  capacity of the cache array.
\<close>

theorem C5_lookup_refines_spec:
  "fst (xml_rd_ns_subst_lookup fnm xml prefix href)
     = fst (resolve_spec fnm (rd_subst_rules xml) (rd_subst_cache xml) prefix href)
   \<and> snd (xml_rd_ns_subst_lookup fnm xml prefix href)
     = xml\<lparr>rd_subst_cache :=
             snd (resolve_spec fnm (rd_subst_rules xml) (rd_subst_cache xml) prefix href),
           rd_subst_cache_cap :=
             rd_subst_cache_cap (snd (xml_rd_ns_subst_lookup fnm xml prefix href))\<rparr>"
  by (simp add: xml_rd_ns_subst_lookup_def resolve_spec_def cache_lookup_find
      rules_lookup_find split: option.splits)

section \<open>The pretty-printer is all or nothing\<close>

text \<open>
  C8. When the input does not parse, \<^verbatim>\<open>xml_format\<close> returns false and writes nothing.
  When it parses, the function writes the whole formatted document and returns true,
  unless the formatted document is empty: then it writes nothing and returns false.
\<close>

theorem C8_xml_format_atomic:
  "(xmlParseMemory (take xml_len xml_text) = None \<longrightarrow>
      xml_format xmlParseMemory dump fp xml_text xml_len = (False, fp))
   \<and> (\<forall>doc. xmlParseMemory (take xml_len xml_text) = Some doc \<longrightarrow>
        xml_format xmlParseMemory dump fp xml_text xml_len
          = (if dump doc = [] then (False, fp) else (True, fp @ dump doc)))"
  by (simp add: xml_format_def Let_def)

theorem C8_xml_format_atomic_witness:
  "(\<lambda>s. if s = ''<a><b></a>'' then None else Some doc_rab) (take 10 ''<a><b></a>'') = None
   \<and> xml_format (\<lambda>s. if s = ''<a><b></a>'' then None else Some doc_rab) (\<lambda>d. ''<r/>'')
        ''out'' ''<a><b></a>'' 10 = (False, ''out'')
   \<and> (\<lambda>s. if s = ''<a><b></a>'' then None else Some doc_rab) (take 4 ''<r/>'') = Some doc_rab
   \<and> xml_format (\<lambda>s. if s = ''<a><b></a>'' then None else Some doc_rab) (\<lambda>d. ''<r/>'')
        ''out'' ''<r/>'' 4 = (True, ''out<r/>'')"
  using C8_xml_format_atomic [of "\<lambda>s. if s = ''<a><b></a>'' then None else Some doc_rab"
      10 "''<a><b></a>''" "\<lambda>d. ''<r/>''" "''out''"]
    C8_xml_format_atomic [of "\<lambda>s. if s = ''<a><b></a>'' then None else Some doc_rab"
      4 "''<r/>''" "\<lambda>d. ''<r/>''" "''out''"]
  by simp

section \<open>The writer: order of children and escaping\<close>

lemma revert_loop_rev:
  "revert_loop cs prev = rev (map xml_wr_revert_children cs) @ prev"
  by (induction cs arbitrary: prev) auto

lemma revert_children_rev:
  "xml_wr_revert_children (Xml_wr_node name val attrs cs)
     = Xml_wr_node name val attrs (rev (map xml_wr_revert_children cs))"
  by (simp add: revert_loop_rev)

lemma revert_add_child_at:
  "xml_wr_revert_children (add_child_at k node t)
     = append_child_at k (xml_wr_revert_children node) (xml_wr_revert_children t)"
proof (induction k arbitrary: t)
  case 0
  show ?case by (cases t) (simp add: revert_loop_rev)
next
  case (Suc k)
  show ?case
  proof (cases t)
    case (Xml_wr_node name val attrs cs)
    then show ?thesis
      using Suc.IH by (cases cs) (simp_all add: revert_loop_rev)
  qed
qed

lemma wr_run_ns: "wr_run ops xml = Inr xml' \<Longrightarrow> wr_ns xml' = wr_ns xml"
  by (induction ops xml rule: wr_run.induct)
    (auto simp: xml_wr_add_text_attr_def xml_wr_add_node_def xml_wr_enter_attr_def
      xml_wr_leave_def Let_def split: if_splits)

lemma wr_run_in_order:
  "wr_run ops xml = Inr xml' \<Longrightarrow>
   in_order_run ops (xml_wr_revert_children (wr_root xml), wr_current xml)
     = Some (xml_wr_revert_children (wr_root xml'), wr_current xml')"
proof (induction ops xml rule: wr_run.induct)
  case (1 xml)
  then show ?case by simp
next
  case (2 name val attrs ops xml)
  then show ?case
    by (simp add: xml_wr_add_text_attr_def xml_wr_add_node_def xml_wr_node_new_def
        revert_add_child_at)
next
  case (3 name attrs ops xml)
  then show ?case
    by (simp add: xml_wr_enter_attr_def xml_wr_add_node_def xml_wr_node_new_def
        revert_add_child_at)
next
  case (4 ops xml)
  then show ?case
    by (auto simp: xml_wr_leave_def split: if_splits)
qed

text \<open>
  C3. The scenario \<^verbatim>\<open>begin("root", [])\<close>, \<^verbatim>\<open>enter("a")\<close>, \<^verbatim>\<open>addLeaf("b","x")\<close>,
  \<^verbatim>\<open>leave()\<close>, \<^verbatim>\<open>addLeaf("c","y")\<close>, \<^verbatim>\<open>finish(compact=true)\<close> gives exactly
  \<^verbatim>\<open><?xml version="1.0" encoding="UTF-8"?><root><a><b>x</b></a><c>y</c></root>\<close>.
  In general, for every sequence of writer operations that runs without a failed
  assertion, the tree that the reversal pass of \<^verbatim>\<open>xml_wr_finish_internal\<close> hands to the
  formatter has every node's children in the order they were added, and the document is
  the formatter's output on that tree.
\<close>

theorem C3_children_in_insertion_order:
  "(wr_run [Enter ''a'' None, AddText ''b'' (Some ''x'') None, Leave,
            AddText ''c'' (Some ''y'') None] (xml_wr_begin ''root'' []) = Inr xml \<longrightarrow>
      xml_wr_finish_compact xml
        = ''<?xml version='' @ [CHR 0x22] @ ''1.0'' @ [CHR 0x22] @ '' encoding='' @ [CHR 0x22]
          @ ''UTF-8'' @ [CHR 0x22] @ ''?><root><a><b>x</b></a><c>y</c></root>'')
   \<and> (wr_run ops (xml_wr_begin root ns) = Inr xml' \<longrightarrow>
        in_order_run ops (Xml_wr_node root None None [], 0)
          = Some (xml_wr_revert_children (wr_root xml'), wr_current xml')
        \<and> xml_wr_finish_internal xml' compact
          = xml_wr_format_node ns (if compact then xml_decl else xml_decl @ [CHR 0x0A])
              (fst (the (in_order_run ops (Xml_wr_node root None None [], 0)))) 0 compact)"
proof (intro conjI impI)
  assume "wr_run [Enter ''a'' None, AddText ''b'' (Some ''x'') None, Leave,
            AddText ''c'' (Some ''y'') None] (xml_wr_begin ''root'' []) = Inr xml"
  then have "xml = \<lparr>wr_root = Xml_wr_node ''root'' None None
                       [Xml_wr_node ''c'' (Some ''y'') None [],
                        Xml_wr_node ''a'' None None [Xml_wr_node ''b'' (Some ''x'') None []]],
                    wr_current = 0, wr_ns = []\<rparr>"
    by (simp add: xml_wr_begin_def xml_wr_enter_attr_def xml_wr_add_text_attr_def
        xml_wr_add_node_def xml_wr_node_new_def xml_wr_leave_def)
  then show "xml_wr_finish_compact xml
        = ''<?xml version='' @ [CHR 0x22] @ ''1.0'' @ [CHR 0x22] @ '' encoding='' @ [CHR 0x22]
          @ ''UTF-8'' @ [CHR 0x22] @ ''?><root><a><b>x</b></a><c>y</c></root>''"
    by (simp add: xml_wr_finish_compact_def xml_wr_finish_internal_def xml_decl_def)
next
  assume run: "wr_run ops (xml_wr_begin root ns) = Inr xml'"
  have ns: "wr_ns xml' = ns"
    using wr_run_ns [OF run] by (simp add: xml_wr_begin_def)
  from wr_run_in_order [OF run]
  show io: "in_order_run ops (Xml_wr_node root None None [], 0)
          = Some (xml_wr_revert_children (wr_root xml'), wr_current xml')"
    by (simp add: xml_wr_begin_def xml_wr_node_new_def)
  show "xml_wr_finish_internal xml' compact
          = xml_wr_format_node ns (if compact then xml_decl else xml_decl @ [CHR 0x0A])
              (fst (the (in_order_run ops (Xml_wr_node root None None [], 0)))) 0 compact"
    by (simp add: io xml_wr_finish_internal_def ns Let_def)
qed

theorem C3_children_in_insertion_order_witness:
  "wr_run [Enter ''a'' None, AddText ''b'' (Some ''x'') None, Leave,
           AddText ''c'' (Some ''y'') None] (xml_wr_begin ''root'' [])
     = Inr \<lparr>wr_root = Xml_wr_node ''root'' None None
                       [Xml_wr_node ''c'' (Some ''y'') None [],
                        Xml_wr_node ''a'' None None [Xml_wr_node ''b'' (Some ''x'') None []]],
            wr_current = 0, wr_ns = []\<rparr>
   \<and> xml_wr_finish_compact
        \<lparr>wr_root = Xml_wr_node ''root'' None None
                       [Xml_wr_node ''c'' (Some ''y'') None [],
                        Xml_wr_node ''a'' None None [Xml_wr_node ''b'' (Some ''x'') None []]],
            wr_current = 0, wr_ns = []\<rparr>
       = ''<?xml version='' @ [CHR 0x22] @ ''1.0'' @ [CHR 0x22] @ '' encoding='' @ [CHR 0x22]
          @ ''UTF-8'' @ [CHR 0x22] @ ''?><root><a><b>x</b></a><c>y</c></root>''
   \<and> in_order_run [Enter ''a'' None, AddText ''b'' (Some ''x'') None, Leave,
           AddText ''c'' (Some ''y'') None] (Xml_wr_node ''root'' None None [], 0)
       = Some (Xml_wr_node ''root'' None None
                 [Xml_wr_node ''a'' None None [Xml_wr_node ''b'' (Some ''x'') None []],
                  Xml_wr_node ''c'' (Some ''y'') None []], 0)"
proof -
  let ?X = "\<lparr>wr_root = Xml_wr_node ''root'' None None
                       [Xml_wr_node ''c'' (Some ''y'') None [],
                        Xml_wr_node ''a'' None None [Xml_wr_node ''b'' (Some ''x'') None []]],
            wr_current = 0, wr_ns = []\<rparr>"
  let ?ops = "[Enter ''a'' None, AddText ''b'' (Some ''x'') None, Leave,
           AddText ''c'' (Some ''y'') None]"
  have run: "wr_run ?ops (xml_wr_begin ''root'' []) = Inr ?X"
    by (simp add: xml_wr_begin_def xml_wr_enter_attr_def xml_wr_add_text_attr_def
        xml_wr_add_node_def xml_wr_node_new_def xml_wr_leave_def)
  from C3_children_in_insertion_order [of ?X ?ops "''root''" "[]" ?X True] run
  show ?thesis by simp
qed

lemma format_value_text_example:
  "xml_wr_format_value [] (''<a&b>'' @ [CHR 0x22, CHR 0x27]) = ''&lt;a&amp;b&gt;&quot;&apos;''"
  by simp

text \<open>
  C7. The text of a leaf is escaped: \<^verbatim>\<open><a&b>"'\<close> is written as
  \<^verbatim>\<open>&lt;a&amp;b&gt;&quot;&apos;\<close>. The value of an attribute is not: the same string as
  the value of the attribute \<^verbatim>\<open>k\<close> is written as it is, between the quotes.
\<close>

theorem C7_attribute_value_not_escaped:
  "xml_wr_finish_compact
     (xml_wr_add_text_attr (xml_wr_begin ''r'' []) ''e'' (Some (''<a&b>'' @ [CHR 0x22, CHR 0x27]))
        (Some [\<lparr>attr_name = ''k'', attr_value = ''<a&b>'' @ [CHR 0x22, CHR 0x27]\<rparr>]))
   = ''<?xml version='' @ [CHR 0x22] @ ''1.0'' @ [CHR 0x22] @ '' encoding='' @ [CHR 0x22]
     @ ''UTF-8'' @ [CHR 0x22] @ ''?><r><e k='' @ [CHR 0x22] @ ''<a&b>'' @ [CHR 0x22, CHR 0x27]
     @ [CHR 0x22] @ ''>&lt;a&amp;b&gt;&quot;&apos;</e></r>''"
  by (simp add: xml_wr_finish_compact_def xml_wr_finish_internal_def xml_decl_def
      xml_wr_add_text_attr_def xml_wr_add_node_def xml_wr_node_new_def xml_wr_begin_def)



section \<open>Reachable reader states and their invariant\<close>


lemma cache_lookup_Some:
  "cache_lookup cache href = Some p \<Longrightarrow>
   \<exists>e \<in> set cache. ns_uri e = href \<and> ns_prefix e = p"
  by (induction cache) (auto split: if_splits)

lemma cache_lookup_None:
  "cache_lookup cache href = None \<Longrightarrow> href \<notin> ns_uri ` set cache"
  by (induction cache) (auto split: if_splits)

lemma lookup_fst:
  "cache_ok fnm xml \<Longrightarrow>
   fst (xml_rd_ns_subst_lookup fnm xml prefix href)
     = subst_prefix fnm (rd_subst_rules xml) prefix href"
  by (auto simp: xml_rd_ns_subst_lookup_def subst_prefix_def cache_ok_def
      split: option.splits dest!: cache_lookup_Some)

lemma lookup_cache_ok:
  "cache_ok fnm xml \<Longrightarrow> cache_ok fnm (snd (xml_rd_ns_subst_lookup fnm xml prefix href))"
  by (auto simp: xml_rd_ns_subst_lookup_def cache_ok_def
      split: option.splits dest!: cache_lookup_None)

lemma lookup_frame:
  "\<exists>c k. snd (xml_rd_ns_subst_lookup fnm xml prefix href)
     = xml\<lparr>rd_subst_cache := c, rd_subst_cache_cap := k\<rparr>"
proof -
  have "snd (xml_rd_ns_subst_lookup fnm xml prefix href)
     = xml\<lparr>rd_subst_cache := rd_subst_cache (snd (xml_rd_ns_subst_lookup fnm xml prefix href)),
           rd_subst_cache_cap := rd_subst_cache_cap (snd (xml_rd_ns_subst_lookup fnm xml prefix href))\<rparr>"
    by (simp add: xml_rd_ns_subst_lookup_def split: option.splits)
  then show ?thesis by blast
qed

lemma node_switched_frame [simp]:
  "rd_node (xml_rd_node_switched fnm xml) = rd_node xml"
  "rd_parent (xml_rd_node_switched fnm xml) = rd_parent xml"
  "rd_pathlen (xml_rd_node_switched fnm xml) = rd_pathlen xml"
  "rd_pathlen_cap (xml_rd_node_switched fnm xml) = rd_pathlen_cap xml"
  "rd_doc (xml_rd_node_switched fnm xml) = rd_doc xml"
  "rd_subst_rules (xml_rd_node_switched fnm xml) = rd_subst_rules xml"
  "rd_text (xml_rd_node_switched fnm xml) = None"
  by (simp_all add: xml_rd_node_switched_def xml_rd_node_invalidate_value_def
      xml_rd_ns_subst_lookup_def Let_def split: option.splits prod.splits)

lemma saved_len_node_switched [simp]:
  "saved_len (xml_rd_node_switched fnm xml) = saved_len xml"
  by (simp add: saved_len_def)

lemma node_switched_alt:
  "xml_rd_node_switched fnm xml =
     (let x2 = xml\<lparr>rd_text := None, rd_path := take (saved_len xml) (rd_path xml)\<rparr>
      in case rd_node xml of
           None \<Rightarrow> x2\<lparr>rd_name := None\<rparr>
         | Some p \<Rightarrow>
             (let r = (case node_ns (rd_doc xml) p of
                         None \<Rightarrow> (None, x2)
                       | Some n \<Rightarrow> xml_rd_ns_subst_lookup fnm x2 (xmlns_prefix n) (xmlns_href n));
                  x4 = (case fst r of
                          None \<Rightarrow> snd r
                        | Some pfx \<Rightarrow> (snd r)\<lparr>rd_path := rd_path (snd r) @ pfx @ '':''\<rparr>);
                  x5 = x4\<lparr>rd_path := rd_path x4 @ node_name (rd_doc x4) p\<rparr>
              in x5\<lparr>rd_name := Some (drop (saved_len xml) (rd_path x5))\<rparr>))"
  by (simp add: xml_rd_node_switched_def xml_rd_node_invalidate_value_def saved_len_def Let_def
      split: prod.splits option.splits)

lemma node_switched_shape:
  assumes ok: "cache_ok fnm xml"
  shows "\<exists>c k. cache_ok fnm (xml\<lparr>rd_subst_cache := c, rd_subst_cache_cap := k\<rparr>)
     \<and> xml_rd_node_switched fnm xml
       = xml\<lparr>rd_text := None,
             rd_path := take (saved_len xml) (rd_path xml)
               @ (case rd_node xml of None \<Rightarrow> []
                  | Some p \<Rightarrow> qname fnm (rd_subst_rules xml) (rd_doc xml) p),
             rd_name := (case rd_node xml of None \<Rightarrow> None
                  | Some p \<Rightarrow> Some (drop (saved_len xml) (take (saved_len xml) (rd_path xml)
                       @ qname fnm (rd_subst_rules xml) (rd_doc xml) p))),
             rd_subst_cache := c, rd_subst_cache_cap := k\<rparr>"
proof -
  let ?x2 = "xml\<lparr>rd_text := None, rd_path := take (saved_len xml) (rd_path xml)\<rparr>"
  have ok2: "cache_ok fnm ?x2"
    using ok by (simp add: cache_ok_def)
  have same: "xml\<lparr>rd_subst_cache := rd_subst_cache xml, rd_subst_cache_cap := rd_subst_cache_cap xml\<rparr> = xml"
    by simp
  show ?thesis
  proof (cases "rd_node xml")
    case None
    show ?thesis
      apply (rule exI [of _ "rd_subst_cache xml"])
      apply (rule exI [of _ "rd_subst_cache_cap xml"])
      using None ok by (simp add: node_switched_alt Let_def)
  next
    case (Some p)
    show ?thesis
    proof (cases "node_ns (rd_doc xml) p")
      case None
      show ?thesis
        apply (rule exI [of _ "rd_subst_cache xml"])
        apply (rule exI [of _ "rd_subst_cache_cap xml"])
        using None Some ok by (simp add: node_switched_alt Let_def qname_def del: drop_append)
    next
      case (Some n)
      let ?r = "xml_rd_ns_subst_lookup fnm ?x2 (xmlns_prefix n) (xmlns_href n)"
      obtain c k where ck: "snd ?r = ?x2\<lparr>rd_subst_cache := c, rd_subst_cache_cap := k\<rparr>"
        using lookup_frame [of fnm ?x2 "xmlns_prefix n" "xmlns_href n"] by blast
      have f: "fst ?r = subst_prefix fnm (rd_subst_rules xml) (xmlns_prefix n) (xmlns_href n)"
        using lookup_fst [OF ok2, of "xmlns_prefix n" "xmlns_href n"] by simp
      have "cache_ok fnm (snd ?r)"
        by (rule lookup_cache_ok [OF ok2])
      then have ok3: "cache_ok fnm (xml\<lparr>rd_subst_cache := c, rd_subst_cache_cap := k\<rparr>)"
        by (simp add: ck cache_ok_def)
      show ?thesis
        apply (rule exI [of _ c])
        apply (rule exI [of _ k])
        using Some \<open>rd_node xml = Some p\<close> ok3 ck f
        by (simp add: node_switched_alt Let_def qname_def del: drop_append split: option.splits)
    qed
  qed
qed


lemma rd_inv_pre: "rd_inv fnm xml \<Longrightarrow> rd_pre fnm xml"
  by (simp add: rd_inv_def rd_pre_def)

lemma rd_pre_node_irrelevant [simp]:
  "rd_pre fnm (xml\<lparr>rd_node := n\<rparr>) = rd_pre fnm xml"
  "rd_pre fnm (xml\<lparr>rd_parent := q\<rparr>) = rd_pre fnm xml"
  "rd_pre fnm (xml\<lparr>rd_text := t\<rparr>) = rd_pre fnm xml"
  "rd_pre fnm (xml\<lparr>rd_name := m\<rparr>) = rd_pre fnm xml"
  by (simp_all add: rd_pre_def cache_ok_def saved_len_def)

lemma rd_inv_node_switched:
  assumes pre: "rd_pre fnm xml"
  shows "rd_inv fnm (xml_rd_node_switched fnm xml)"
proof -
  from pre have ok: "cache_ok fnm xml" by (simp add: rd_pre_def)
  from node_switched_shape [OF ok] obtain c k where
    ok': "cache_ok fnm (xml\<lparr>rd_subst_cache := c, rd_subst_cache_cap := k\<rparr>)" and
    eq: "xml_rd_node_switched fnm xml
       = xml\<lparr>rd_text := None,
             rd_path := take (saved_len xml) (rd_path xml)
               @ (case rd_node xml of None \<Rightarrow> []
                  | Some p \<Rightarrow> qname fnm (rd_subst_rules xml) (rd_doc xml) p),
             rd_name := (case rd_node xml of None \<Rightarrow> None
                  | Some p \<Rightarrow> Some (drop (saved_len xml) (take (saved_len xml) (rd_path xml)
                       @ qname fnm (rd_subst_rules xml) (rd_doc xml) p))),
             rd_subst_cache := c, rd_subst_cache_cap := k\<rparr>"
    by blast
  from pre have len: "saved_len xml \<le> length (rd_path xml)" by (simp add: rd_pre_def)
  have sl: "saved_len (xml_rd_node_switched fnm xml) = saved_len xml"
    by simp
  from ok' have ok'': "cache_ok fnm (xml_rd_node_switched fnm xml)"
    by (simp add: eq cache_ok_def)
  show ?thesis
    unfolding rd_inv_def sl
    using pre len ok''
    by (cases "rd_node xml") (simp_all add: eq rd_pre_def min_absorb2)
qed

lemma rd_pre_new: "rd_pre fnm (xml_rd_skip_dummy (xml_rd_new doc ns))"
  by (simp add: rd_pre_def xml_rd_skip_dummy_def xml_rd_new_def cache_ok_def saved_len_def)

lemma rd_inv_open: "rd_inv fnm (xml_rd_open fnm doc ns)"
  by (simp add: xml_rd_open_def rd_inv_node_switched rd_pre_new)

lemma rd_inv_next: "rd_inv fnm xml \<Longrightarrow> rd_inv fnm (xml_rd_next fnm xml)"
  by (cases "rd_node xml")
    (simp_all add: xml_rd_next_def xml_rd_skip_dummy_def rd_inv_node_switched rd_inv_pre)

lemma sorted_take_le_last:
  assumes "sorted (take d xs)" "d \<le> length xs" "0 < d" "x \<in> set (take d xs)"
  shows "x \<le> xs ! (d - 1)"
proof -
  from assms(4) obtain i where i: "i < length (take d xs)" "take d xs ! i = x"
    by (auto simp: in_set_conv_nth)
  have "take d xs ! i \<le> take d xs ! (d - 1)"
    using assms i by (intro sorted_nth_mono) auto
  then show ?thesis using i assms by simp
qed

lemma rd_pre_enter:
  assumes inv: "rd_pre fnm xml"
  shows "rd_pre fnm
     ((if rd_depth xml = rd_pathlen_cap xml
       then xml\<lparr>rd_pathlen_cap := rd_pathlen_cap xml * 2,
                rd_pathlen := rd_pathlen xml @ replicate (rd_pathlen_cap xml) 0\<rparr>
       else xml)
      \<lparr>rd_path := rd_path xml @ ''/'',
        rd_pathlen := (if rd_depth xml = rd_pathlen_cap xml
                       then rd_pathlen xml @ replicate (rd_pathlen_cap xml) 0
                       else rd_pathlen xml)[rd_depth xml := Suc (length (rd_path xml))],
        rd_depth := Suc (rd_depth xml)\<rparr>)"
proof -
  let ?d = "rd_depth xml"
  let ?pl0 = "if rd_depth xml = rd_pathlen_cap xml
              then rd_pathlen xml @ replicate (rd_pathlen_cap xml) 0 else rd_pathlen xml"
  from inv have cap: "0 < rd_pathlen_cap xml" "length (rd_pathlen xml) = rd_pathlen_cap xml"
    "?d \<le> rd_pathlen_cap xml" and srt: "sorted (take ?d (rd_pathlen xml))"
    and sl: "saved_len xml \<le> length (rd_path xml)" and ok: "cache_ok fnm xml"
    by (simp_all add: rd_pre_def)
  have d: "?d < length ?pl0" using cap by auto
  have tk: "take ?d ?pl0 = take ?d (rd_pathlen xml)" using cap by auto
  have "take (Suc ?d) (?pl0[?d := Suc (length (rd_path xml))])
        = take ?d (rd_pathlen xml) @ [Suc (length (rd_path xml))]"
    using d tk by (simp add: take_Suc_conv_app_nth)
  moreover have "\<forall>x \<in> set (take ?d (rd_pathlen xml)). x \<le> Suc (length (rd_path xml))"
  proof
    fix x assume x: "x \<in> set (take ?d (rd_pathlen xml))"
    then have "0 < ?d" by (cases "?d") auto
    with sorted_take_le_last [OF srt _ _ x] cap have "x \<le> rd_pathlen xml ! (?d - 1)" by simp
    with sl \<open>0 < ?d\<close> show "x \<le> Suc (length (rd_path xml))" by (simp add: saved_len_def)
  qed
  ultimately have s': "sorted (take (Suc ?d) (?pl0[?d := Suc (length (rd_path xml))]))"
    by (simp add: sorted_append srt)
  show ?thesis
    using cap d s' ok
    by (auto simp: rd_pre_def cache_ok_def saved_len_def)
qed





lemma rd_pre_cong:
  assumes "rd_subst_cache x = rd_subst_cache y" "rd_subst_rules x = rd_subst_rules y"
    "rd_pathlen_cap x = rd_pathlen_cap y" "rd_pathlen x = rd_pathlen y"
    "rd_depth x = rd_depth y" "rd_path x = rd_path y"
  shows "rd_pre fnm x = rd_pre fnm y"
  by (simp add: rd_pre_def cache_ok_def saved_len_def assms)

lemma enter_alt:
  assumes "rd_node xml = Some p"
  shows "xml_rd_enter fnm xml = xml_rd_node_switched fnm (enter_state xml p)"
proof (cases "rd_depth xml = rd_pathlen_cap xml")
  case True
  then show ?thesis
    using assms by (simp add: xml_rd_enter_def enter_state_def xml_rd_skip_dummy_def Let_def)
next
  case False
  then show ?thesis
    using assms by (simp add: xml_rd_enter_def enter_state_def xml_rd_skip_dummy_def Let_def)
qed

lemma rd_pre_enter_state:
  assumes pre: "rd_pre fnm xml"
  shows "rd_pre fnm (enter_state xml p)"
proof -
  have "rd_pre fnm (enter_state xml p) = rd_pre fnm
     ((if rd_depth xml = rd_pathlen_cap xml
       then xml\<lparr>rd_pathlen_cap := rd_pathlen_cap xml * 2,
                rd_pathlen := rd_pathlen xml @ replicate (rd_pathlen_cap xml) 0\<rparr>
       else xml)
      \<lparr>rd_path := rd_path xml @ ''/'',
        rd_pathlen := (if rd_depth xml = rd_pathlen_cap xml
                       then rd_pathlen xml @ replicate (rd_pathlen_cap xml) 0
                       else rd_pathlen xml)[rd_depth xml := Suc (length (rd_path xml))],
        rd_depth := Suc (rd_depth xml)\<rparr>)"
    by (rule rd_pre_cong) (simp_all add: enter_state_def)
  with rd_pre_enter [OF pre] show ?thesis by simp
qed

lemma rd_inv_enter: "rd_inv fnm xml \<Longrightarrow> rd_inv fnm (xml_rd_enter fnm xml)"
proof (cases "rd_node xml")
  case None
  assume "rd_inv fnm xml"
  with None show ?thesis by (simp add: xml_rd_enter_def)
next
  case (Some p)
  assume "rd_inv fnm xml"
  then have "rd_pre fnm (enter_state xml p)"
    by (intro rd_pre_enter_state rd_inv_pre)
  then show ?thesis
    by (simp add: enter_alt [OF Some] rd_inv_node_switched)
qed

lemma rd_pre_leave:
  assumes pre: "rd_pre fnm xml" and d: "0 < rd_depth xml"
  shows "rd_pre fnm (xml\<lparr>rd_depth := rd_depth xml - 1\<rparr>)"
proof -
  let ?d = "rd_depth xml"
  from pre have cap: "length (rd_pathlen xml) = rd_pathlen_cap xml" "?d \<le> rd_pathlen_cap xml"
    and srt: "sorted (take ?d (rd_pathlen xml))"
    and sl: "saved_len xml \<le> length (rd_path xml)"
    by (simp_all add: rd_pre_def)
  have "take (?d - 1) (rd_pathlen xml) = take (?d - 1) (take ?d (rd_pathlen xml))"
    by (simp add: min_def)
  then have s': "sorted (take (?d - 1) (rd_pathlen xml))"
    using srt sorted_wrt_take by metis
  have "saved_len (xml\<lparr>rd_depth := ?d - 1\<rparr>) \<le> saved_len xml"
  proof (cases "?d - 1 = 0")
    case True
    then show ?thesis by (simp add: saved_len_def)
  next
    case False
    have "take ?d (rd_pathlen xml) ! (?d - 2) \<le> take ?d (rd_pathlen xml) ! (?d - 1)"
      using srt cap d False by (intro sorted_nth_mono) auto
    then show ?thesis using False d by (simp add: saved_len_def numeral_2_eq_2)
  qed
  with sl have "saved_len (xml\<lparr>rd_depth := ?d - 1\<rparr>) \<le> length (rd_path xml)" by simp
  with pre s' show ?thesis
    by (auto simp: rd_pre_def cache_ok_def)
qed

lemma rd_inv_leave: "rd_inv fnm xml \<Longrightarrow> rd_inv fnm (xml_rd_leave fnm xml)"
proof (cases "0 < rd_depth xml")
  case False
  assume "rd_inv fnm xml"
  with False show ?thesis by (simp add: xml_rd_leave_def)
next
  case True
  assume "rd_inv fnm xml"
  then have pre: "rd_pre fnm xml" by (rule rd_inv_pre)
  show ?thesis
    using True rd_pre_leave [OF pre True]
    by (auto simp: xml_rd_leave_def Let_def intro!: rd_inv_node_switched split: option.splits)
qed

lemma rd_inv_deep_next_loop:
  "rd_inv fnm xml \<Longrightarrow> rd_inv fnm (deep_next_loop fnm xml depth)"
proof (induction fnm xml depth rule: deep_next_loop.induct)
  case (1 fnm xml depth)
  show ?case
  proof (cases "xml_rd_end xml \<and> xml_rd_depth xml > unat (depth + 1)")
    case True
    then show ?thesis
      using 1 by (subst deep_next_loop.simps) (simp add: rd_inv_next rd_inv_leave)
  next
    case False
    then show ?thesis
      by (subst deep_next_loop.simps) (use 1 in auto)
  qed
qed

lemma rd_inv_deep_next: "rd_inv fnm xml \<Longrightarrow> rd_inv fnm (xml_rd_deep_next fnm xml depth)"
  by (simp add: xml_rd_deep_next_def rd_inv_deep_next_loop rd_inv_enter)

lemma rd_inv_value: "rd_inv fnm xml \<Longrightarrow> rd_inv fnm (snd (xml_rd_node_value xml))"
  by (auto simp: xml_rd_node_value_def rd_inv_def cache_ok_def saved_len_def Let_def
      split: option.splits)

lemma snd_value_uint: "snd (xml_rd_node_value_uint is_signed xml) = snd (xml_rd_node_value xml)"
  by (simp add: xml_rd_node_value_uint_def Let_def split: prod.splits option.splits)

lemma reachable_inv: "reachable fnm doc ns xml \<Longrightarrow> rd_inv fnm xml"
  by (induction rule: reachable.induct)
    (simp_all add: rd_inv_open rd_inv_next rd_inv_enter rd_inv_leave rd_inv_deep_next
      rd_inv_value snd_value_uint)




lemma reachable_doc_rules:
  "reachable fnm doc ns xml \<Longrightarrow> rd_doc xml = doc \<and> rd_subst_rules xml = ns"
proof (induction rule: reachable.induct)
  case reach_begin
  show ?case by (simp add: xml_rd_open_def xml_rd_skip_dummy_def xml_rd_new_def)
next
  case (reach_next xml)
  then show ?case by (simp add: xml_rd_next_def xml_rd_skip_dummy_def split: option.splits)
next
  case (reach_enter xml)
  then show ?case
    by (cases "rd_node xml") (simp add: xml_rd_enter_def, simp add: enter_alt enter_state_def)
next
  case (reach_leave xml)
  then show ?case by (simp add: xml_rd_leave_def Let_def split: option.splits)
next
  case (reach_deep_next xml depth)
  have "rd_doc (deep_next_loop fnm x depth) = rd_doc x
        \<and> rd_subst_rules (deep_next_loop fnm x depth) = rd_subst_rules x" for x
  proof (induction fnm x depth rule: deep_next_loop.induct)
    case (1 fnm x depth)
    show ?case
      by (subst (1 2) deep_next_loop.simps)
        (use 1 in \<open>auto simp: xml_rd_next_def xml_rd_leave_def xml_rd_skip_dummy_def Let_def
           split: option.splits\<close>)
  qed
  moreover have "rd_doc (xml_rd_enter fnm xml) = doc \<and> rd_subst_rules (xml_rd_enter fnm xml) = ns"
    using reach_deep_next.IH
    by (cases "rd_node xml") (simp add: xml_rd_enter_def, simp add: enter_alt enter_state_def)
  ultimately show ?case by (simp add: xml_rd_deep_next_def)
next
  case (reach_value xml)
  then show ?case by (simp add: xml_rd_node_value_def Let_def split: option.splits)
next
  case (reach_value_uint xml is_signed)
  then show ?case
    by (simp add: snd_value_uint xml_rd_node_value_def Let_def split: option.splits)
qed

text \<open>
  C9, as the code has it. In every reachable reader state no two cache entries have the
  same URI, and a namespace URI that some rule matches resolves to the prefix of the first
  matching rule, whatever the state of the cache and whatever prefix the document uses
  (so any two resolutions of such a URI agree). A URI that no rule matches resolves to the
  prefix the document gives at that node.
\<close>

theorem C9_cache_unique_matched_uri_same_prefix:
  assumes "reachable fnm doc ns xml"
  shows "distinct (map ns_uri (rd_subst_cache xml))
    \<and> (\<forall>rules p prefix href.
          ns = Some rules \<and> rules_lookup fnm rules href = Some p \<longrightarrow>
          fst (xml_rd_ns_subst_lookup fnm xml prefix href) = Some p)"
proof -
  from assms have ok: "cache_ok fnm xml"
    using reachable_inv rd_inv_def by blast
  from assms have r: "rd_subst_rules xml = ns"
    using reachable_doc_rules by blast
  show ?thesis
    using ok by (auto simp: lookup_fst [OF ok] r subst_prefix_def cache_ok_def)
qed




theorem C9_same_uri_different_prefix_counterexample:
  "fst (xml_rd_ns_subst_lookup glob (xml_rd_open glob doc_two_prefixes (Some rules_scan))
          (Some ''a'') ''urn:y'') = Some ''a''
   \<and> fst (xml_rd_ns_subst_lookup glob (xml_rd_open glob doc_two_prefixes (Some rules_scan))
          (Some ''b'') ''urn:y'') = Some ''b''
   \<and> xml_rd_node_name (xml_rd_open glob doc_two_prefixes (Some rules_scan)) = Some ''a:r''
   \<and> xml_rd_node_name (xml_rd_enter glob (xml_rd_open glob doc_two_prefixes (Some rules_scan)))
       = Some ''b:c''"
  by code_simp

theorem C9_cache_unique_matched_uri_same_prefix_witness:
  "rd_subst_cache (xml_rd_enter glob (xml_rd_open glob doc_foo (Some rules_scan)))
     = [\<lparr>ns_prefix = ''scan'', ns_uri = ''urn:x:1''\<rparr>]
   \<and> distinct (map ns_uri (rd_subst_cache (xml_rd_enter glob (xml_rd_open glob doc_foo (Some rules_scan)))))
   \<and> fst (xml_rd_ns_subst_lookup glob (xml_rd_enter glob (xml_rd_open glob doc_foo (Some rules_scan)))
          (Some ''zz'') ''urn:x:7'') = Some ''scan''"
proof -
  have r: "reachable glob doc_foo (Some rules_scan)
             (xml_rd_enter glob (xml_rd_open glob doc_foo (Some rules_scan)))"
    by (intro reach_enter reach_begin)
  have c: "rd_subst_cache (xml_rd_enter glob (xml_rd_open glob doc_foo (Some rules_scan)))
     = [\<lparr>ns_prefix = ''scan'', ns_uri = ''urn:x:1''\<rparr>]"
    by code_simp
  have m: "rules_lookup glob rules_scan ''urn:x:7'' = Some ''scan''"
    by code_simp
  from C9_cache_unique_matched_uri_same_prefix [OF r] m c show ?thesis
    by blast
qed




lemma node_switched_path:
  assumes "cache_ok fnm x"
  shows "rd_path (xml_rd_node_switched fnm x)
         = take (saved_len x) (rd_path x)
           @ (case rd_node x of None \<Rightarrow> []
              | Some p \<Rightarrow> qname fnm (rd_subst_rules x) (rd_doc x) p)"
  using node_switched_shape [OF assms] by auto

lemma node_switched_name:
  assumes "cache_ok fnm x" "saved_len x \<le> length (rd_path x)"
  shows "rd_name (xml_rd_node_switched fnm x)
         = map_option (qname fnm (rd_subst_rules x) (rd_doc x)) (rd_node x)"
  using node_switched_shape [OF assms(1)] assms(2) by (auto split: option.splits)

lemma cache_ok_cong:
  "rd_subst_cache x = rd_subst_cache y \<Longrightarrow> rd_subst_rules x = rd_subst_rules y \<Longrightarrow>
   cache_ok fnm x = cache_ok fnm y"
  by (simp add: cache_ok_def)

section \<open>Entering a node and leaving it\<close>

text \<open>
  C2. At every reachable reader position that has a current node, \<^verbatim>\<open>xml_rd_enter\<close>
  followed by \<^verbatim>\<open>xml_rd_leave\<close> gives back the depth, the current node, the name and the
  path the reader had, also when the entered node has no element children and the reader
  is at the end of the deeper level in between.
\<close>

theorem C2_enter_then_leave_restores:
  assumes reach: "reachable fnm doc ns xml" and node: "rd_node xml \<noteq> None"
  shows "xml_rd_depth (xml_rd_leave fnm (xml_rd_enter fnm xml)) = xml_rd_depth xml
    \<and> rd_node (xml_rd_leave fnm (xml_rd_enter fnm xml)) = rd_node xml
    \<and> xml_rd_node_name (xml_rd_leave fnm (xml_rd_enter fnm xml)) = xml_rd_node_name xml
    \<and> xml_rd_node_path (xml_rd_leave fnm (xml_rd_enter fnm xml)) = xml_rd_node_path xml"
proof -
  from node obtain p where p: "rd_node xml = Some p" by auto
  from reach have inv: "rd_inv fnm xml" by (rule reachable_inv)
  then have pre: "rd_pre fnm xml" by (rule rd_inv_pre)
  let ?d = "rd_depth xml"
  let ?q = "qname fnm (rd_subst_rules xml) (rd_doc xml) p"
  from inv p have path: "rd_path xml = take (saved_len xml) (rd_path xml) @ ?q"
    and name: "rd_name xml = Some ?q"
    by (simp_all add: rd_inv_def)
  from pre have sl: "saved_len xml \<le> length (rd_path xml)"
    and cap: "length (rd_pathlen xml) = rd_pathlen_cap xml" "?d \<le> rd_pathlen_cap xml"
      "0 < rd_pathlen_cap xml"
    by (simp_all add: rd_pre_def)
  define e where "e = xml_rd_enter fnm xml"
  have e_eq: "e = xml_rd_node_switched fnm (enter_state xml p)"
    unfolding e_def by (rule enter_alt [OF p])
  have inv_e: "rd_inv fnm e"
    unfolding e_def by (rule rd_inv_enter [OF inv])
  then have ok_e: "cache_ok fnm e" by (simp add: rd_inv_def)
  have pre_s: "rd_pre fnm (enter_state xml p)"
    by (rule rd_pre_enter_state [OF pre])
  then have ok_s: "cache_ok fnm (enter_state xml p)" by (simp add: rd_pre_def)
  have e_depth: "rd_depth e = Suc ?d" and e_parent: "rd_parent e = Some p"
    and e_pathlen: "rd_pathlen e = (if ?d = rd_pathlen_cap xml
                        then rd_pathlen xml @ replicate (rd_pathlen_cap xml) 0
                        else rd_pathlen xml)[?d := Suc (length (rd_path xml))]"
    and e_doc: "rd_doc e = rd_doc xml" and e_rules: "rd_subst_rules e = rd_subst_rules xml"
    by (simp_all add: e_eq enter_state_def)
  have sl_s: "saved_len (enter_state xml p) = Suc (length (rd_path xml))"
    using cap by (auto simp: saved_len_def enter_state_def)
  have s_path: "rd_path (enter_state xml p) = rd_path xml @ ''/''"
    by (simp add: enter_state_def)
  have "rd_path e = take (saved_len (enter_state xml p)) (rd_path (enter_state xml p))
           @ (case rd_node (enter_state xml p) of None \<Rightarrow> []
              | Some p' \<Rightarrow> qname fnm (rd_subst_rules (enter_state xml p))
                            (rd_doc (enter_state xml p)) p')"
    unfolding e_eq by (rule node_switched_path [OF ok_s])
  then have e_path: "take (saved_len xml) (rd_path e) = take (saved_len xml) (rd_path xml)"
    using sl by (simp add: sl_s s_path)
  define l where "l = e\<lparr>rd_depth := ?d, rd_node := Some p, rd_parent := node_parent p\<rparr>"
  have leave: "xml_rd_leave fnm e = xml_rd_node_switched fnm l"
    by (simp add: xml_rd_leave_def e_depth e_parent l_def Let_def)
  have ok_l: "cache_ok fnm l"
    using ok_e cache_ok_cong [of l e fnm] by (simp add: l_def)
  have sl_l: "saved_len l = saved_len xml"
    using cap by (auto simp: saved_len_def l_def e_pathlen nth_append)
  have "rd_path l = rd_path e"
    by (simp add: l_def)
  then have l_path: "take (saved_len l) (rd_path l) = take (saved_len xml) (rd_path xml)"
    using e_path by (simp add: sl_l)
  have l_fields: "rd_node l = Some p" "rd_subst_rules l = rd_subst_rules xml"
    "rd_doc l = rd_doc xml" "rd_depth l = ?d"
    by (simp_all add: l_def e_doc e_rules)
  have r_path: "rd_path (xml_rd_node_switched fnm l) = rd_path xml"
    using path by (simp add: node_switched_path [OF ok_l] l_path l_fields)
  have "saved_len l \<le> length (rd_path l)"
  proof -
    have "length (take (saved_len l) (rd_path l)) = saved_len xml"
      using sl by (simp add: l_path)
    then show ?thesis by (simp add: sl_l)
  qed
  then have r_name: "rd_name (xml_rd_node_switched fnm l) = Some ?q"
    by (simp add: node_switched_name [OF ok_l] l_fields)
  show ?thesis
    unfolding e_def [symmetric] leave
    using p name r_path r_name l_fields
    by (simp add: xml_rd_depth_def xml_rd_node_name_def xml_rd_node_path_def)
qed

theorem C2_enter_then_leave_restores_witness:
  "rd_node (xml_rd_enter glob (xml_rd_open glob doc_foo (Some rules_scan))) \<noteq> None
   \<and> rd_node (xml_rd_enter glob (xml_rd_enter glob (xml_rd_open glob doc_foo (Some rules_scan))))
       = None
   \<and> xml_rd_depth (xml_rd_leave glob (xml_rd_enter glob
         (xml_rd_enter glob (xml_rd_open glob doc_foo (Some rules_scan))))) = 1
   \<and> rd_node (xml_rd_leave glob (xml_rd_enter glob
         (xml_rd_enter glob (xml_rd_open glob doc_foo (Some rules_scan))))) = Some [0, 0]
   \<and> xml_rd_node_name (xml_rd_leave glob (xml_rd_enter glob
         (xml_rd_enter glob (xml_rd_open glob doc_foo (Some rules_scan))))) = Some ''scan:Bar''
   \<and> xml_rd_node_path (xml_rd_leave glob (xml_rd_enter glob
         (xml_rd_enter glob (xml_rd_open glob doc_foo (Some rules_scan)))))
       = Some ''scan:Foo/scan:Bar''"
proof -
  let ?x = "xml_rd_enter glob (xml_rd_open glob doc_foo (Some rules_scan))"
  have r: "reachable glob doc_foo (Some rules_scan) ?x"
    by (intro reach_enter reach_begin)
  have n: "rd_node ?x \<noteq> None" by code_simp
  have e: "rd_node (xml_rd_enter glob ?x) = None" by code_simp
  have v: "xml_rd_depth ?x = 1" "rd_node ?x = Some [0, 0]"
    "xml_rd_node_name ?x = Some ''scan:Bar''" "xml_rd_node_path ?x = Some ''scan:Foo/scan:Bar''"
    by code_simp+
  from C2_enter_then_leave_restores [OF r n] n e v show ?thesis
    by simp
qed

text \<open>
  At the end of a level below the root there is no node to enter: \<^verbatim>\<open>xml_rd_enter\<close>
  does nothing and \<^verbatim>\<open>xml_rd_leave\<close> goes up to the parent.
\<close>

lemma enter_leave_at_end_goes_up:
  "rd_node (xml_rd_next glob (xml_rd_enter glob (xml_rd_open glob doc_foo None))) = None
   \<and> xml_rd_depth (xml_rd_next glob (xml_rd_enter glob (xml_rd_open glob doc_foo None))) = 1
   \<and> xml_rd_depth (xml_rd_leave glob (xml_rd_enter glob
        (xml_rd_next glob (xml_rd_enter glob (xml_rd_open glob doc_foo None))))) = 0
   \<and> rd_node (xml_rd_leave glob (xml_rd_enter glob
        (xml_rd_next glob (xml_rd_enter glob (xml_rd_open glob doc_foo None))))) = Some [0]"
  by code_simp



section \<open>Reading and writing unsigned integers\<close>

lemma isdigit_not_space_sign:
  "isdigit_c c \<Longrightarrow> \<not> isspace_c c \<and> \<not> g_ascii_isspace c \<and> c \<noteq> CHR ''-'' \<and> c \<noteq> CHR ''+''"
  by (auto simp: isdigit_c_def isspace_c_def g_ascii_isspace_def)

lemma strtoul_digits_all:
  "list_all isdigit_c ds \<Longrightarrow>
   strtoul_digits ds acc = (foldl (\<lambda>a c. a * 10 + (of_char c - 48)) acc ds, [])"
  by (induction ds arbitrary: acc) auto

lemma strtoul_digits_garbage:
  "list_all isdigit_c ds \<Longrightarrow> \<not> isdigit_c g \<Longrightarrow>
   snd (strtoul_digits (ds @ g # gs) acc) = g # gs"
  by (induction ds arbitrary: acc) auto

lemma strtoul_all_digits:
  assumes "all_digits ds"
  shows "strtoul ds = (if digits_value ds > ULONG_MAX then of_nat ULONG_MAX
                       else of_nat (digits_value ds), [])"
proof -
  from assms obtain c cs where ds: "ds = c # cs" and c: "isdigit_c c" and cs: "list_all isdigit_c cs"
    by (cases ds) (auto simp: all_digits_def)
  have all: "list_all isdigit_c (c # cs)" using c cs by simp
  show ?thesis
    using isdigit_not_space_sign [OF c] c
    by (simp add: strtoul_def ds strtoul_digits_all [OF all] digits_value_def Let_def
        del: strtoul_digits.simps foldl_Cons)
qed

lemma strtoul_garbage:
  assumes "all_digits ds" "\<not> isdigit_c g"
  shows "snd (strtoul (ds @ g # gs)) = g # gs"
proof -
  from assms obtain c cs where ds: "ds = c # cs" and c: "isdigit_c c" and cs: "list_all isdigit_c cs"
    by (cases ds) (auto simp: all_digits_def)
  have all: "list_all isdigit_c (c # cs)" using c cs by simp
  have "snd (strtoul_digits ((c # cs) @ g # gs) 0) = g # gs"
    by (rule strtoul_digits_garbage [OF all assms(2)])
  then show ?thesis
    using isdigit_not_space_sign [OF c] c
    by (auto simp add: strtoul_def ds Let_def split: prod.splits simp del: strtoul_digits.simps)
qed

lemma strtoul_non_numeric:
  assumes "s = [] \<or> (\<not> isdigit_c (hd s) \<and> \<not> isspace_c (hd s) \<and> hd s \<noteq> CHR ''-'' \<and> hd s \<noteq> CHR ''+'')"
  shows "snd (strtoul s) = s"
  using assms by (cases s) (auto simp: strtoul_def Let_def)

lemma decimal_digits: "list_all isdigit_c (decimal n) \<and> decimal n \<noteq> []"
proof (induction n rule: decimal.induct)
  case (1 n)
  have d: "isdigit_c (char_of (48 + k))" if "k < 10" for k :: nat
    using that by (simp add: isdigit_c_def)
  show ?case
  proof (cases "n < 10")
    case True
    then show ?thesis by (subst (1 2) decimal.simps) (simp add: d)
  next
    case False
    with 1 show ?thesis by (subst (1 2) decimal.simps) (simp add: d)
  qed
qed

lemma foldl_digits_append:
  "foldl (\<lambda>a c. a * 10 + (of_char c - 48)) acc (xs @ [c])
   = foldl (\<lambda>a c. a * 10 + (of_char c - 48)) acc xs * 10 + (of_char c - 48)"
  by simp

lemma decimal_value: "digits_value (decimal n) = n"
proof (induction n rule: decimal.induct)
  case (1 n)
  show ?case
  proof (cases "n < 10")
    case True
    then show ?thesis by (subst decimal.simps) (simp add: digits_value_def)
  next
    case False
    with 1 have "digits_value (decimal (n div 10)) = n div 10" by simp
    with False show ?thesis
      by (subst decimal.simps) (simp add: digits_value_def)
  qed
qed

lemma uint_down: "uint (ucast (v :: 64 word) :: 32 word) = uint v mod 2 ^ 32"
  unfolding unsigned_ucast_eq take_bit_eq_mod by simp

lemma uint_up: "uint (ucast (w :: 32 word) :: 64 word) = uint w"
proof -
  have "uint w < 2 ^ 32" using uint_lt2p [of w] by simp
  then have "uint w mod 2 ^ 64 = uint w" by simp
  then show ?thesis
    unfolding unsigned_ucast_eq take_bit_eq_mod by simp
qed

lemma uint_cast_unsigned: "uint (sane_word_cast False v) = uint v mod 2 ^ 32"
  by (simp only: sane_word_cast_def if_False uint_up uint_down)

lemma sint_32: 
  fixes w :: "32 word"
  shows "sint w = (if uint w < 2 ^ 31 then uint w else uint w - 2 ^ 32)"
proof -
  have b: "0 \<le> uint w" "uint w < 2 ^ 32" using uint_lt2p [of w] by simp_all
  have "sint w = (uint w + 2 ^ 31) mod 2 ^ 32 - 2 ^ 31"
    unfolding sint_uint signed_take_bit_eq_take_bit_shift take_bit_eq_mod by simp
  also have "\<dots> = (if uint w < 2 ^ 31 then uint w else uint w - 2 ^ 32)"
  proof (cases "uint w < 2 ^ 31")
    case True
    with b have "(uint w + 2 ^ 31) mod 2 ^ 32 = uint w + 2 ^ 31" by simp
    with True show ?thesis by simp
  next
    case False
    have "(uint w + 2 ^ 31) mod 2 ^ 32 = (uint w + 2 ^ 31 - 2 ^ 32) mod 2 ^ 32"
      by (simp only: minus_mod_self2)
    also have "\<dots> = uint w + 2 ^ 31 - 2 ^ 32" using False b by simp
    finally show ?thesis using False by simp
  qed
  finally show ?thesis .
qed

lemma uint_cast_signed:
  "uint (sane_word_cast True v)
   = (if uint v mod 2 ^ 32 < 2 ^ 31 then uint v mod 2 ^ 32
      else uint v mod 2 ^ 32 + (2 ^ 64 - 2 ^ 32))"
proof -
  define m where "m = uint v mod 2 ^ 32"
  have m: "0 \<le> m" "m < 2 ^ 32" by (simp_all add: m_def)
  have c: "sane_word_cast True v = word_of_int (sint (ucast v :: 32 word))"
    unfolding sane_word_cast_def if_True by (rule scast_eq)
  have "uint (sane_word_cast True v) = sint (ucast v :: 32 word) mod 2 ^ 64"
    unfolding c by (simp only: uint_word_of_int) simp
  also have "sint (ucast v :: 32 word) = (if m < 2 ^ 31 then m else m - 2 ^ 32)"
    unfolding sint_32 uint_down m_def ..
  finally have u: "uint (sane_word_cast True v) = (if m < 2 ^ 31 then m else m - 2 ^ 32) mod 2 ^ 64" .
  show ?thesis
  proof (cases "m < 2 ^ 31")
    case True
    have "m mod 2 ^ 64 = m"
      by (rule mod_pos_pos_trivial) (use m True in simp_all)
    with True u show ?thesis by (simp only: m_def [symmetric] if_True)
  next
    case False
    have "(m - 2 ^ 32) mod 2 ^ 64 = (m - 2 ^ 32 + 2 ^ 64) mod 2 ^ 64"
      by (simp only: mod_add_self2)
    also have "\<dots> = m - 2 ^ 32 + 2 ^ 64"
      by (rule mod_pos_pos_trivial) (use m False in simp_all)
    finally have "(m - 2 ^ 32) mod 2 ^ 64 = m + (2 ^ 64 - 2 ^ 32)" by simp
    with False u show ?thesis by (simp only: m_def [symmetric] if_False)
  qed
qed

lemma cast_unsigned_iff: "(sane_word_cast False v = v) = (uint v < 2 ^ 32)"
proof -
  have "(sane_word_cast False v = v) = (uint v mod 2 ^ 32 = uint v)"
    by (simp only: word_uint_eq_iff uint_cast_unsigned)
  also have "\<dots> = (uint v < 2 ^ 32)"
  proof
    assume "uint v mod 2 ^ 32 = uint v"
    moreover have "uint v mod 2 ^ 32 < 2 ^ 32" by simp
    ultimately show "uint v < 2 ^ 32" by simp
  next
    assume "uint v < 2 ^ 32"
    then show "uint v mod 2 ^ 32 = uint v" by simp
  qed
  finally show ?thesis .
qed

lemma cast_signed_iff:
  "(sane_word_cast True v = v) = (uint v < 2 ^ 31 \<or> 2 ^ 64 - 2 ^ 31 \<le> uint v)"
proof -
  define u where "u = uint v"
  define m where "m = u mod 2 ^ 32"
  have u: "0 \<le> u" "u < 2 ^ 64"
    using uint_lt2p [of v] by (simp_all add: u_def)
  have m: "0 \<le> m" "m < 2 ^ 32" by (simp_all add: m_def)
  have eq: "(sane_word_cast True v = v) = ((if m < 2 ^ 31 then m else m + (2 ^ 64 - 2 ^ 32)) = u)"
    by (simp only: word_uint_eq_iff uint_cast_signed m_def u_def)
  show ?thesis
    unfolding eq u_def [symmetric]
  proof
    assume a: "(if m < 2 ^ 31 then m else m + (2 ^ 64 - 2 ^ 32)) = u"
    show "u < 2 ^ 31 \<or> 2 ^ 64 - 2 ^ 31 \<le> u"
    proof (cases "m < 2 ^ 31")
      case True
      with a show ?thesis by simp
    next
      case False
      with a have "u = m + (2 ^ 64 - 2 ^ 32)" by simp
      with False show ?thesis by simp
    qed
  next
    assume "u < 2 ^ 31 \<or> 2 ^ 64 - 2 ^ 31 \<le> u"
    then show "(if m < 2 ^ 31 then m else m + (2 ^ 64 - 2 ^ 32)) = u"
    proof
      assume lt: "u < 2 ^ 31"
      with u have "m = u" by (simp add: m_def)
      with lt show ?thesis by simp
    next
      assume ge: "2 ^ 64 - 2 ^ 31 \<le> u"
      define r where "r = u - (2 ^ 64 - 2 ^ 32)"
      have r: "2 ^ 31 \<le> r" "r < 2 ^ 32" using ge u by (simp_all add: r_def)
      have "u = r + 2 ^ 32 * (2 ^ 32 - 1)" by (simp add: r_def)
      then have "m = (r + 2 ^ 32 * (2 ^ 32 - 1)) mod 2 ^ 32" by (simp only: m_def)
      also have "\<dots> = r mod 2 ^ 32" by (rule mod_mult_self2)
      also have "\<dots> = r" using r by simp
      finally have "m = r" .
      with r show ?thesis by (simp add: r_def)
    qed
  qed
qed

lemma uint_of_nat_64: "n < 2 ^ 64 \<Longrightarrow> uint (of_nat n :: 64 word) = int n"
proof -
  assume "n < 2 ^ 64"
  then have "take_bit 64 n = n" by (simp add: take_bit_eq_mod)
  then show ?thesis by (simp add: unsigned_of_nat)
qed

lemma ucast_of_nat_32: "(ucast (of_nat n :: 64 word) :: 32 word) = of_nat n"
proof -
  have "uint (ucast (of_nat n :: 64 word) :: 32 word) = uint (of_nat n :: 32 word)"
    unfolding uint_down by (simp add: unsigned_of_nat take_bit_eq_mod zmod_int mod_mod_cancel)
  then show ?thesis by (simp only: word_uint_eq_iff)
qed




lemma strtoul_no_number:
  assumes "no_number s"
  shows "strtoul s = (0, s)"
proof -
  define s1 where "s1 = dropWhile isspace_c s"
  show ?thesis
  proof (cases s1)
    case Nil
    then show ?thesis by (simp add: strtoul_def s1_def [symmetric])
  next
    case (Cons c r)
    show ?thesis
    proof (cases "c = CHR ''-'' \<or> c = CHR ''+''")
      case True
      with Cons assms have "case r of [] \<Rightarrow> True | d # r' \<Rightarrow> \<not> isdigit_c d"
        by (auto simp: no_number_def s1_def [symmetric])
      with True Cons show ?thesis
        by (auto simp: strtoul_def s1_def [symmetric] split: list.splits)
    next
      case False
      with Cons assms have "\<not> isdigit_c c"
        by (auto simp: no_number_def s1_def [symmetric])
      with False Cons show ?thesis
        by (auto simp: strtoul_def s1_def [symmetric])
    qed
  qed
qed

lemma value_uint_unfold:
  assumes "fst (xml_rd_node_value xml) = Some str"
  shows "fst (xml_rd_node_value_uint is_signed xml)
    = (if snd (strtoul str) = str \<or> snd (strtoul str) \<noteq> []
          \<or> fst (strtoul str) \<noteq> sane_word_cast is_signed (fst (strtoul str))
       then Inl (ERROR ((case xml_rd_node_name (snd (xml_rd_node_value xml)) of
                           None \<Rightarrow> ''(null)'' | Some n \<Rightarrow> n) @ '': invalid numerical value''))
       else Inr (ucast (fst (strtoul str))))"
  using assms
  by (cases "xml_rd_node_value xml"; cases "strtoul str")
    (simp add: xml_rd_node_value_uint_def)

lemma value_uint_absent:
  "fst (xml_rd_node_value xml) = None \<Longrightarrow>
   fst (xml_rd_node_value_uint is_signed xml) = Inl LOG_ASSERT_FAILED"
  by (cases "xml_rd_node_value xml") (simp add: xml_rd_node_value_uint_def)

lemma value_uint_no_number:
  assumes "fst (xml_rd_node_value xml) = Some s" "no_number s"
  shows "is_value_error (fst (xml_rd_node_value_uint is_signed xml))"
  by (simp add: value_uint_unfold [OF assms(1)] strtoul_no_number [OF assms(2)])

lemma value_uint_garbage:
  assumes "fst (xml_rd_node_value xml) = Some (ds @ g # gs)" "all_digits ds" "\<not> isdigit_c g"
  shows "is_value_error (fst (xml_rd_node_value_uint is_signed xml))"
  by (simp add: value_uint_unfold [OF assms(1)] strtoul_garbage [OF assms(2,3)])

lemma value_uint_fits:
  assumes v: "fst (xml_rd_node_value xml) = Some ds" and d: "all_digits ds"
    and f: "word_fits is_signed (digits_value ds)"
  shows "fst (xml_rd_node_value_uint is_signed xml) = Inr (of_nat (digits_value ds))"
proof -
  let ?n = "digits_value ds"
  from f have n31: "is_signed \<longrightarrow> ?n < 2 ^ 31" and n32: "?n < 2 ^ 32"
    by (auto simp: word_fits_def split: if_splits)
  from n32 have n64: "?n < 2 ^ 64" by simp
  then have le: "\<not> ?n > ULONG_MAX" by (simp add: ULONG_MAX_def)
  have st: "strtoul ds = (of_nat ?n, [])"
    using le by (simp add: strtoul_all_digits [OF d])
  have u: "uint (of_nat ?n :: 64 word) = int ?n"
    by (rule uint_of_nat_64 [OF n64])
  have c: "sane_word_cast is_signed (of_nat ?n) = of_nat ?n"
  proof (cases is_signed)
    case True
    with n31 have "int ?n < 2 ^ 31" by simp
    then show ?thesis using True by (simp add: cast_signed_iff u)
  next
    case False
    from n32 have "int ?n < 2 ^ 32" by simp
    then show ?thesis using False by (simp add: cast_unsigned_iff u)
  qed
  from d have "ds \<noteq> []" by (simp add: all_digits_def)
  then show ?thesis
    by (simp add: value_uint_unfold [OF v] st c ucast_of_nat_32)
qed

lemma value_uint_overflow:
  assumes v: "fst (xml_rd_node_value xml) = Some ds" and d: "all_digits ds"
    and f: "\<not> word_fits is_signed (digits_value ds)"
    and s: "is_signed \<longrightarrow> digits_value ds < 2 ^ 64 - 2 ^ 31"
  shows "is_value_error (fst (xml_rd_node_value_uint is_signed xml))"
proof -
  let ?n = "digits_value ds"
  define m where "m = (if ?n > ULONG_MAX then ULONG_MAX else ?n)"
  have m64: "m < 2 ^ 64" by (simp add: m_def ULONG_MAX_def)
  have st: "strtoul ds = (of_nat m, [])"
    by (simp add: strtoul_all_digits [OF d] m_def)
  have u: "uint (of_nat m :: 64 word) = int m"
    by (rule uint_of_nat_64 [OF m64])
  have c: "sane_word_cast is_signed (of_nat m) \<noteq> of_nat m"
  proof (cases is_signed)
    case True
    with f s have "2 ^ 31 \<le> ?n" "?n < 2 ^ 64 - 2 ^ 31" by (simp_all add: word_fits_def)
    then have "2 ^ 31 \<le> m" "m < 2 ^ 64 - 2 ^ 31" by (simp_all add: m_def ULONG_MAX_def)
    then have "\<not> (int m < 2 ^ 31 \<or> 2 ^ 64 - 2 ^ 31 \<le> int m)" by simp
    then show ?thesis using True by (simp only: cast_signed_iff u) simp
  next
    case False
    with f have "2 ^ 32 \<le> ?n" by (simp add: word_fits_def)
    then have "2 ^ 32 \<le> m" by (simp add: m_def ULONG_MAX_def)
    then have "\<not> int m < 2 ^ 32" by simp
    then show ?thesis using False by (simp only: cast_unsigned_iff u) simp
  qed
  then have "of_nat m \<noteq> sane_word_cast is_signed (of_nat m)" by (rule not_sym)
  then show ?thesis
    by (simp add: value_uint_unfold [OF v] st)
qed




text \<open>
  C6, as the code has it. \<^verbatim>\<open>xml_rd_node_value_uint\<close> reads the text of
  \<^verbatim>\<open>xml_rd_node_value\<close> in base 10. When the text is absent the call fails its assertion
  (it does not return an error). A text of digits only whose value the word holds gives
  that value. The call returns the invalid-number error when the text does not begin with
  a number, when something that is not a digit follows the digits, and when the digits
  denote a value beyond the word: any such value for an unsigned word, and the values up to
  \<open>2^64 - 2^31 - 1\<close> for a signed one. What the call does with a text that has a sign is
  not part of this statement.
\<close>

theorem C6_value_uint_parse:
  "(fst (xml_rd_node_value xml) = None \<longrightarrow>
      fst (xml_rd_node_value_uint is_signed xml) = Inl LOG_ASSERT_FAILED)
   \<and> (\<forall>ds. fst (xml_rd_node_value xml) = Some ds \<and> all_digits ds
          \<and> word_fits is_signed (digits_value ds) \<longrightarrow>
        fst (xml_rd_node_value_uint is_signed xml) = Inr (of_nat (digits_value ds)))
   \<and> (\<forall>s. fst (xml_rd_node_value xml) = Some s \<and> no_number s \<longrightarrow>
        is_value_error (fst (xml_rd_node_value_uint is_signed xml)))
   \<and> (\<forall>ds g gs. fst (xml_rd_node_value xml) = Some (ds @ g # gs) \<and> all_digits ds
          \<and> \<not> isdigit_c g \<longrightarrow>
        is_value_error (fst (xml_rd_node_value_uint is_signed xml)))
   \<and> (\<forall>ds. fst (xml_rd_node_value xml) = Some ds \<and> all_digits ds
          \<and> \<not> word_fits is_signed (digits_value ds)
          \<and> (is_signed \<longrightarrow> digits_value ds < 2 ^ 64 - 2 ^ 31) \<longrightarrow>
        is_value_error (fst (xml_rd_node_value_uint is_signed xml)))"
  using value_uint_absent value_uint_fits value_uint_no_number value_uint_garbage
    value_uint_overflow
  by blast

theorem C6_sign_accepted_absent_asserts_counterexample:
  "fst (xml_rd_node_value (xml_rd_open glob doc_plus None)) = Some ''+5''
   \<and> fst (xml_rd_node_value_uint False (xml_rd_open glob doc_plus None)) = Inr 5
   \<and> fst (xml_rd_node_value_uint True (xml_rd_open glob doc_plus None)) = Inr 5
   \<and> fst (xml_rd_node_value (xml_rd_next glob (xml_rd_open glob doc_plus None))) = None
   \<and> fst (xml_rd_node_value_uint False (xml_rd_next glob (xml_rd_open glob doc_plus None)))
       = Inl LOG_ASSERT_FAILED"
proof -
  have v: "fst (xml_rd_node_value (xml_rd_open glob doc_plus None)) = Some ''+5''"
    by code_simp
  have a: "fst (xml_rd_node_value (xml_rd_next glob (xml_rd_open glob doc_plus None))) = None"
    by code_simp
  have st: "strtoul ''+5'' = (5, [])"
    by (simp add: strtoul_def isspace_c_def isdigit_c_def ULONG_MAX_def)
  have c: "sane_word_cast False 5 = 5" "sane_word_cast True 5 = 5"
    by (simp_all add: cast_unsigned_iff cast_signed_iff)
  show ?thesis
    by (simp add: v a value_uint_unfold [OF v] value_uint_absent [OF a] st c)
qed

theorem C6_value_uint_parse_witness:
  "fst (xml_rd_node_value (xml_rd_enter glob (xml_rd_open glob doc_foo (Some rules_scan))))
     = Some ''42''
   \<and> all_digits ''42'' \<and> word_fits False (digits_value ''42'')
   \<and> fst (xml_rd_node_value_uint False (xml_rd_enter glob (xml_rd_open glob doc_foo (Some rules_scan))))
       = Inr 42
   \<and> fst (xml_rd_node_value (xml_rd_next glob (xml_rd_open glob doc_foo None))) = None
   \<and> fst (xml_rd_node_value_uint False (xml_rd_next glob (xml_rd_open glob doc_foo None)))
       = Inl LOG_ASSERT_FAILED"
proof -
  let ?x = "xml_rd_enter glob (xml_rd_open glob doc_foo (Some rules_scan))"
  let ?y = "xml_rd_next glob (xml_rd_open glob doc_foo None)"
  have v: "fst (xml_rd_node_value ?x) = Some ''42''" by code_simp
  have d: "all_digits ''42''" by (simp add: all_digits_def isdigit_c_def)
  have n: "digits_value ''42'' = 42" by (simp add: digits_value_def)
  have f: "word_fits False (digits_value ''42'')" unfolding n by (simp add: word_fits_def)
  have a: "fst (xml_rd_node_value ?y) = None" by code_simp
  from C6_value_uint_parse [of ?x False] v d f
  have "fst (xml_rd_node_value_uint False ?x) = Inr (of_nat (digits_value ''42''))" by blast
  moreover from C6_value_uint_parse [of ?y False] a
  have "fst (xml_rd_node_value_uint False ?y) = Inl LOG_ASSERT_FAILED" by blast
  ultimately show ?thesis using v d f a n by simp
qed




lemma format_value_digits:
  "list_all isdigit_c ds \<Longrightarrow> xml_wr_format_value buf ds = buf @ ds"
  by (induction ds arbitrary: buf) (auto simp: isdigit_c_def)

lemma format_ns_append: "format_ns buf ns = buf @ format_ns [] ns"
proof (induction ns arbitrary: buf)
  case Nil
  show ?case by simp
next
  case (Cons n ns)
  show ?case
    by (simp add: Cons.IH [of "buf @ _"] Cons.IH [of "CHR '' '' # _"])
qed

lemma sprintf_u_digits: "all_digits (sprintf_u v)"
  using decimal_digits [of "unat v"] by (simp add: sprintf_u_def all_digits_def)

lemma add_uint_rendered:
  "xml_wr_finish_compact (xml_wr_add_uint (xml_wr_begin root ns) name v)
   = xml_decl @ ''<'' @ root @ format_ns [] ns @ ''><'' @ name @ ''>'' @ sprintf_u v
     @ ''</'' @ name @ ''></'' @ root @ ''>''"
proof -
  have d: "list_all isdigit_c (sprintf_u v)"
    using sprintf_u_digits [of v] by (simp add: all_digits_def)
  show ?thesis
    by (simp add: xml_wr_finish_compact_def xml_wr_finish_internal_def xml_wr_add_uint_def
        xml_wr_add_uint_attr_def xml_wr_add_text_attr_def xml_wr_add_node_def xml_wr_node_new_def
        xml_wr_begin_def format_value_digits [OF d] format_ns_append [of "_ @ _"])
qed

lemma g_strstrip_digits:
  assumes "all_digits ds"
  shows "g_strstrip ds = ds"
proof -
  have keep: "dropWhile g_ascii_isspace xs = xs" if "xs \<noteq> []" "\<not> g_ascii_isspace (hd xs)" for xs
    using that by (cases xs) auto
  from assms have ne: "ds \<noteq> []" and all: "\<forall>c \<in> set ds. isdigit_c c"
    by (simp_all add: all_digits_def list_all_iff)
  have h: "\<not> g_ascii_isspace (hd ds)"
    using ne all isdigit_not_space_sign [of "hd ds"] by simp
  have l: "\<not> g_ascii_isspace (hd (rev ds))"
    using ne all isdigit_not_space_sign [of "last ds"] by (simp add: hd_rev)
  show ?thesis
    using ne by (simp add: g_strstrip_def keep [OF ne h] keep [OF _ l])
qed

lemma open_node:
  "rd_node (xml_rd_open fnm doc ns) = skip_dummy_loop doc (xmlDocGetRootElement doc)"
  "rd_doc (xml_rd_open fnm doc ns) = doc"
  by (simp_all add: xml_rd_open_def xml_rd_skip_dummy_def xml_rd_new_def)

lemma leaf_doc_value:
  "fst (xml_rd_node_value (xml_rd_enter fnm (xml_rd_open fnm (leaf_doc root name txt) rules)))
   = Some (g_strstrip txt)"
proof -
  let ?doc = "leaf_doc root name txt"
  let ?o = "xml_rd_open fnm ?doc rules"
  have k0: "kids ?doc [] = ?doc" by simp
  have k1: "kids ?doc [0] = [XML_ELEMENT_NODE name None [XML_TEXT_NODE txt]]"
    by (simp add: leaf_doc_def)
  have e0: "node_is_element ?doc [0]"
    by (simp add: node_is_element_def deref_def leaf_doc_def)
  have e1: "node_is_element ?doc [0, 0]"
    by (simp add: node_is_element_def deref_def k1 del: kids.simps)
  have s0: "skip_dummy_loop ?doc (Some [0]) = Some [0]"
    by (subst skip_dummy_loop.simps) (simp add: e0)
  have s1: "skip_dummy_loop ?doc (Some [0, 0]) = Some [0, 0]"
    by (subst skip_dummy_loop.simps) (simp add: e1)
  have c0: "node_children ?doc [] = Some [0]"
    by (simp add: node_children_def leaf_doc_def)
  have c1: "node_children ?doc [0] = Some [0, 0]"
    by (simp add: node_children_def k1 del: kids.simps)
  have n: "rd_node ?o = Some [0]"
    by (simp add: open_node xmlDocGetRootElement_def c0 s0)
  have en: "rd_node (xml_rd_enter fnm ?o) = Some [0, 0]" "rd_text (xml_rd_enter fnm ?o) = None"
    "rd_doc (xml_rd_enter fnm ?o) = ?doc"
    by (simp_all add: enter_alt [OF n] enter_state_def open_node c1 s1)
  have g: "xmlNodeGetContent ?doc [0, 0] = Some txt"
    by (simp add: xmlNodeGetContent_def deref_def k1 del: kids.simps)
  show ?thesis
    by (simp add: xml_rd_node_value_def en g Let_def)
qed





text \<open>
  C1, as the code has it. A leaf written with \<^verbatim>\<open>xml_wr_add_uint\<close> appears in the document as
  the decimal digits of the value between its tags. The reader positioned on that leaf has
  these digits as its text, and \<^verbatim>\<open>xml_rd_node_value_uint\<close> on a node with this text gives
  back the value when the word holds it as a non-negative number (every 32-bit value for an
  unsigned word; the values below \<open>2^31\<close> for a signed one) and the invalid-number error
  when it does not. The invalid-number error is also the result for digits that denote a
  value beyond the word (any such value for an unsigned word, and the values up to
  \<open>2^64 - 2^31 - 1\<close> for a signed one), for a text that does not begin with a number, and
  for a text with a character that is not a digit after its digits. What the call does
  with a text that has a sign before its digits is not part of this statement.
\<close>

theorem C1_uint_round_trip:
  "xml_wr_finish_compact (xml_wr_add_uint (xml_wr_begin root ns) name v)
     = xml_decl @ ''<'' @ root @ format_ns [] ns @ ''><'' @ name @ ''>'' @ sprintf_u v
       @ ''</'' @ name @ ''></'' @ root @ ''>''
   \<and> fst (xml_rd_node_value
            (xml_rd_enter fnm (xml_rd_open fnm (leaf_doc root name (sprintf_u v)) rules)))
       = Some (sprintf_u v)
   \<and> (\<forall>xml. fst (xml_rd_node_value xml) = Some (sprintf_u v) \<longrightarrow>
         (word_fits is_signed (unat v) \<longrightarrow>
            fst (xml_rd_node_value_uint is_signed xml) = Inr v)
         \<and> (\<not> word_fits is_signed (unat v) \<longrightarrow>
            is_value_error (fst (xml_rd_node_value_uint is_signed xml))))
   \<and> (\<forall>xml ds. fst (xml_rd_node_value xml) = Some ds \<and> all_digits ds
          \<and> \<not> word_fits is_signed (digits_value ds)
          \<and> (is_signed \<longrightarrow> digits_value ds < 2 ^ 64 - 2 ^ 31) \<longrightarrow>
        is_value_error (fst (xml_rd_node_value_uint is_signed xml)))
   \<and> (\<forall>xml s. fst (xml_rd_node_value xml) = Some s \<and> no_number s \<longrightarrow>
        is_value_error (fst (xml_rd_node_value_uint is_signed xml)))
   \<and> (\<forall>xml ds g gs. fst (xml_rd_node_value xml) = Some (ds @ g # gs) \<and> all_digits ds
          \<and> \<not> isdigit_c g \<longrightarrow>
        is_value_error (fst (xml_rd_node_value_uint is_signed xml)))"
proof (intro conjI allI impI)
  show "xml_wr_finish_compact (xml_wr_add_uint (xml_wr_begin root ns) name v)
     = xml_decl @ ''<'' @ root @ format_ns [] ns @ ''><'' @ name @ ''>'' @ sprintf_u v
       @ ''</'' @ name @ ''></'' @ root @ ''>''"
    by (rule add_uint_rendered)
next
  show "fst (xml_rd_node_value
            (xml_rd_enter fnm (xml_rd_open fnm (leaf_doc root name (sprintf_u v)) rules)))
       = Some (sprintf_u v)"
    by (simp add: leaf_doc_value g_strstrip_digits [OF sprintf_u_digits])
next
  fix xml
  assume s: "fst (xml_rd_node_value xml) = Some (sprintf_u v)"
  have dv: "digits_value (sprintf_u v) = unat v"
    unfolding sprintf_u_def by (rule decimal_value)
  {
    assume "word_fits is_signed (unat v)"
    then have "word_fits is_signed (digits_value (sprintf_u v))" by (simp add: dv)
    from value_uint_fits [OF s sprintf_u_digits this]
    show "fst (xml_rd_node_value_uint is_signed xml) = Inr v" by (simp add: dv)
  }
  {
    assume "\<not> word_fits is_signed (unat v)"
    then have f: "\<not> word_fits is_signed (digits_value (sprintf_u v))" by (simp add: dv)
    have "unat v < 2 ^ 32" using unsigned_less [of v] by simp
    moreover have "(2::nat) ^ 32 \<le> 2 ^ 64 - 2 ^ 31" by simp
    ultimately have "unat v < 2 ^ 64 - 2 ^ 31" by (rule less_le_trans)
    then have "is_signed \<longrightarrow> digits_value (sprintf_u v) < 2 ^ 64 - 2 ^ 31" by (simp only: dv simp_thms)
    from value_uint_overflow [OF s sprintf_u_digits f this]
    show "is_value_error (fst (xml_rd_node_value_uint is_signed xml))" .
  }
next
  fix xml ds
  assume "fst (xml_rd_node_value xml) = Some ds \<and> all_digits ds
          \<and> \<not> word_fits is_signed (digits_value ds)
          \<and> (is_signed \<longrightarrow> digits_value ds < 2 ^ 64 - 2 ^ 31)"
  then show "is_value_error (fst (xml_rd_node_value_uint is_signed xml))"
    using value_uint_overflow by blast
next
  fix xml s
  assume "fst (xml_rd_node_value xml) = Some s \<and> no_number s"
  then show "is_value_error (fst (xml_rd_node_value_uint is_signed xml))"
    using value_uint_no_number by blast
next
  fix xml ds g gs
  assume "fst (xml_rd_node_value xml) = Some (ds @ g # gs) \<and> all_digits ds \<and> \<not> isdigit_c g"
  then show "is_value_error (fst (xml_rd_node_value_uint is_signed xml))"
    using value_uint_garbage by blast
qed

text \<open>
  With a signed word the value 2147483648 is written and is not read back. The text
  \<^verbatim>\<open>-18446744073709551615\<close> is read as 1 with either word, and with a signed word the text
  \<^verbatim>\<open>18446744073709551615\<close> is read as the bit pattern of \<open>-1\<close>.
\<close>

theorem C1_word_range_and_signed_text_counterexample:
  "xml_wr_finish_compact (xml_wr_add_uint (xml_wr_begin ''r'' []) ''n'' 2147483648)
     = xml_decl @ ''<r><n>2147483648</n></r>''
   \<and> fst (xml_rd_node_value
            (xml_rd_enter glob (xml_rd_open glob (leaf_doc ''r'' ''n'' ''2147483648'') None)))
       = Some ''2147483648''
   \<and> fst (xml_rd_node_value_uint True
            (xml_rd_enter glob (xml_rd_open glob (leaf_doc ''r'' ''n'' ''2147483648'') None)))
       = Inl (ERROR ''n: invalid numerical value'')
   \<and> fst (xml_rd_node_value
            (xml_rd_enter glob
               (xml_rd_open glob (leaf_doc ''r'' ''n'' ''-18446744073709551615'') None)))
       = Some ''-18446744073709551615''
   \<and> fst (xml_rd_node_value_uint False
            (xml_rd_enter glob
               (xml_rd_open glob (leaf_doc ''r'' ''n'' ''-18446744073709551615'') None)))
       = Inr 1
   \<and> fst (xml_rd_node_value_uint True
            (xml_rd_enter glob
               (xml_rd_open glob (leaf_doc ''r'' ''n'' ''-18446744073709551615'') None)))
       = Inr 1
   \<and> fst (xml_rd_node_value_uint True
            (xml_rd_enter glob
               (xml_rd_open glob (leaf_doc ''r'' ''n'' ''18446744073709551615'') None)))
       = Inr 4294967295"
proof -
  let ?a = "xml_rd_enter glob (xml_rd_open glob (leaf_doc ''r'' ''n'' ''2147483648'') None)"
  let ?b = "xml_rd_enter glob
              (xml_rd_open glob (leaf_doc ''r'' ''n'' ''-18446744073709551615'') None)"
  let ?c = "xml_rd_enter glob
              (xml_rd_open glob (leaf_doc ''r'' ''n'' ''18446744073709551615'') None)"
  have "decimal 2147483648 = ''2147483648''"
    by (simp add: decimal.simps; code_simp)
  then have p: "sprintf_u 2147483648 = ''2147483648''"
    by (simp add: sprintf_u_def)
  have w: "xml_wr_finish_compact (xml_wr_add_uint (xml_wr_begin ''r'' []) ''n'' 2147483648)
     = xml_decl @ ''<r><n>2147483648</n></r>''"
    by (simp add: add_uint_rendered p)
  have va: "fst (xml_rd_node_value ?a) = Some ''2147483648''"
    by (simp add: leaf_doc_value g_strstrip_def g_ascii_isspace_def)
  have vb: "fst (xml_rd_node_value ?b) = Some ''-18446744073709551615''"
    by (simp add: leaf_doc_value g_strstrip_def g_ascii_isspace_def)
  have vc: "fst (xml_rd_node_value ?c) = Some ''18446744073709551615''"
    by (simp add: leaf_doc_value g_strstrip_def g_ascii_isspace_def)
  have na: "xml_rd_node_name (snd (xml_rd_node_value ?a)) = Some ''n''"
    by code_simp
  have sa: "strtoul ''2147483648'' = (2147483648, [])"
    by (simp add: strtoul_def isspace_c_def isdigit_c_def ULONG_MAX_def)
  have sb: "strtoul ''-18446744073709551615'' = (1, [])"
    by (simp add: strtoul_def isspace_c_def isdigit_c_def ULONG_MAX_def)
  have sc: "strtoul ''18446744073709551615'' = (18446744073709551615, [])"
    by (simp add: strtoul_def isspace_c_def isdigit_c_def ULONG_MAX_def)
  have "sane_word_cast True 2147483648 \<noteq> 2147483648"
    by (simp add: cast_signed_iff)
  then have ca: "2147483648 \<noteq> sane_word_cast True 2147483648"
    by (rule not_sym)
  have cb: "sane_word_cast False 1 = 1" "sane_word_cast True 1 = 1"
    by (simp_all add: cast_unsigned_iff cast_signed_iff)
  have cc: "sane_word_cast True 18446744073709551615 = 18446744073709551615"
    by (simp add: cast_signed_iff)
  have ra: "fst (xml_rd_node_value_uint True ?a) = Inl (ERROR ''n: invalid numerical value'')"
    by (simp add: value_uint_unfold [OF va] sa na ca)
  have rb: "fst (xml_rd_node_value_uint False ?b) = Inr 1"
    "fst (xml_rd_node_value_uint True ?b) = Inr 1"
    by (simp_all add: value_uint_unfold [OF vb] sb cb)
  have rc: "fst (xml_rd_node_value_uint True ?c) = Inr 4294967295"
    by (simp add: value_uint_unfold [OF vc] sc cc)
  from w va ra vb rb rc show ?thesis by (simp only: simp_thms)
qed

theorem C1_uint_round_trip_witness:
  "sprintf_u 4294967295 = ''4294967295''
   \<and> xml_wr_finish_compact (xml_wr_add_uint (xml_wr_begin ''r'' []) ''n'' 4294967295)
       = xml_decl @ ''<r><n>4294967295</n></r>''
   \<and> fst (xml_rd_node_value
            (xml_rd_enter glob (xml_rd_open glob (leaf_doc ''r'' ''n'' ''4294967295'') None)))
       = Some ''4294967295''
   \<and> word_fits False (unat (4294967295 :: 32 word))
   \<and> fst (xml_rd_node_value_uint False
            (xml_rd_enter glob (xml_rd_open glob (leaf_doc ''r'' ''n'' ''4294967295'') None)))
       = Inr 4294967295
   \<and> \<not> word_fits True (unat (4294967295 :: 32 word))
   \<and> is_value_error (fst (xml_rd_node_value_uint True
            (xml_rd_enter glob (xml_rd_open glob (leaf_doc ''r'' ''n'' ''4294967295'') None))))
   \<and> fst (xml_rd_node_value
            (xml_rd_enter glob (xml_rd_open glob (leaf_doc ''r'' ''n'' ''12x'') None)))
       = Some (''12'' @ CHR ''x'' # [])
   \<and> all_digits ''12'' \<and> \<not> isdigit_c CHR ''x''
   \<and> is_value_error (fst (xml_rd_node_value_uint False
            (xml_rd_enter glob (xml_rd_open glob (leaf_doc ''r'' ''n'' ''12x'') None))))
   \<and> fst (xml_rd_node_value
            (xml_rd_enter glob (xml_rd_open glob (leaf_doc ''r'' ''n'' ''abc'') None)))
       = Some ''abc''
   \<and> no_number ''abc''
   \<and> is_value_error (fst (xml_rd_node_value_uint True
            (xml_rd_enter glob (xml_rd_open glob (leaf_doc ''r'' ''n'' ''abc'') None))))
   \<and> fst (xml_rd_node_value
            (xml_rd_enter glob (xml_rd_open glob (leaf_doc ''r'' ''n'' ''4294967296'') None)))
       = Some ''4294967296''
   \<and> all_digits ''4294967296'' \<and> \<not> word_fits False (digits_value ''4294967296'')
   \<and> is_value_error (fst (xml_rd_node_value_uint False
            (xml_rd_enter glob (xml_rd_open glob (leaf_doc ''r'' ''n'' ''4294967296'') None))))"
proof -
  let ?g = "xml_rd_enter glob (xml_rd_open glob (leaf_doc ''r'' ''n'' ''12x'') None)"
  let ?n = "xml_rd_enter glob (xml_rd_open glob (leaf_doc ''r'' ''n'' ''abc'') None)"
  let ?o = "xml_rd_enter glob (xml_rd_open glob (leaf_doc ''r'' ''n'' ''4294967296'') None)"
  have "decimal 4294967295 = ''4294967295''"
    by (simp add: decimal.simps; code_simp)
  then have p: "sprintf_u 4294967295 = ''4294967295''"
    by (simp add: sprintf_u_def)
  have f: "word_fits False (unat (4294967295 :: 32 word))"
    "\<not> word_fits True (unat (4294967295 :: 32 word))"
    by (simp_all add: word_fits_def)
  have e: "format_ns [] [] = []" by simp
  have vg: "fst (xml_rd_node_value ?g) = Some (''12'' @ CHR ''x'' # [])"
    by (simp add: leaf_doc_value g_strstrip_def g_ascii_isspace_def)
  have dg: "all_digits ''12''" "\<not> isdigit_c CHR ''x''"
    by (simp_all add: all_digits_def isdigit_c_def)
  have vn: "fst (xml_rd_node_value ?n) = Some ''abc''"
    by (simp add: leaf_doc_value g_strstrip_def g_ascii_isspace_def)
  have nn: "no_number ''abc''"
    by (simp add: no_number_def isspace_c_def isdigit_c_def)
  have vo: "fst (xml_rd_node_value ?o) = Some ''4294967296''"
    by (simp add: leaf_doc_value g_strstrip_def g_ascii_isspace_def)
  have d: "all_digits ''4294967296''" by (simp add: all_digits_def isdigit_c_def)
  have n: "digits_value ''4294967296'' = 4294967296" by (simp add: digits_value_def)
  have nf: "\<not> word_fits False (digits_value ''4294967296'')"
    unfolding n by (simp add: word_fits_def)
  note t = C1_uint_round_trip [of "''r''" "[]" "''n''" 4294967295 glob None False]
  note u = C1_uint_round_trip [of "''r''" "[]" "''n''" 4294967295 glob None True]
  from t vg dg have rg: "is_value_error (fst (xml_rd_node_value_uint False ?g))" by blast
  from u vn nn have rn: "is_value_error (fst (xml_rd_node_value_uint True ?n))" by blast
  from t vo d nf have ro: "is_value_error (fst (xml_rd_node_value_uint False ?o))" by blast
  from t u f have rt: "xml_wr_finish_compact (xml_wr_add_uint (xml_wr_begin ''r'' []) ''n'' 4294967295)
       = xml_decl @ ''<r><n>4294967295</n></r>''
   \<and> fst (xml_rd_node_value
            (xml_rd_enter glob (xml_rd_open glob (leaf_doc ''r'' ''n'' ''4294967295'') None)))
       = Some ''4294967295''
   \<and> fst (xml_rd_node_value_uint False
            (xml_rd_enter glob (xml_rd_open glob (leaf_doc ''r'' ''n'' ''4294967295'') None)))
       = Inr 4294967295
   \<and> is_value_error (fst (xml_rd_node_value_uint True
            (xml_rd_enter glob (xml_rd_open glob (leaf_doc ''r'' ''n'' ''4294967295'') None))))"
    unfolding p e by simp
  from rt p f vg dg rg vn nn rn vo d nf ro show ?thesis by (simp only: simp_thms)
qed

section \<open>The deep traversal\<close>

lemma skip_None [simp]: "skip_dummy_loop doc None = None"
  by (subst skip_dummy_loop.simps) simp

lemma skip_element: "node_is_element doc p \<Longrightarrow> skip_dummy_loop doc (Some p) = Some p"
  by (subst skip_dummy_loop.simps) simp

lemma skip_other:
  "\<not> node_is_element doc p \<Longrightarrow> skip_dummy_loop doc (Some p) = skip_dummy_loop doc (node_next doc p)"
  by (subst skip_dummy_loop.simps) simp

lemma skip_idem: "skip_dummy_loop doc (skip_dummy_loop doc n) = skip_dummy_loop doc n"
proof (induction doc n rule: skip_dummy_loop.induct)
  case (1 doc node)
  show ?case
  proof (cases node)
    case None
    then show ?thesis by simp
  next
    case (Some p)
    show ?thesis
    proof (cases "node_is_element doc p")
      case True
      then show ?thesis by (simp add: Some skip_element)
    next
      case False
      with 1 [OF Some] show ?thesis by (simp add: Some skip_other)
    qed
  qed
qed

lemma rd_doc_node_switched: "rd_doc (xml_rd_node_switched fnm xml) = rd_doc xml"
  by simp

lemma pos_of_next: "rd_pos (xml_rd_next fnm xml) = pos_next (rd_doc xml) (rd_pos xml)"
  by (cases "rd_node xml")
    (simp_all add: xml_rd_next_def rd_pos_def pos_next_def xml_rd_skip_dummy_def)

lemma doc_of_next: "rd_doc (xml_rd_next fnm xml) = rd_doc xml"
  by (cases "rd_node xml") (simp_all add: xml_rd_next_def xml_rd_skip_dummy_def)

lemma pos_of_enter: "rd_pos (xml_rd_enter fnm xml) = pos_enter (rd_doc xml) (rd_pos xml)"
proof (cases "rd_node xml")
  case None
  then show ?thesis by (simp add: xml_rd_enter_def rd_pos_def pos_enter_def)
next
  case (Some p)
  show ?thesis
    by (simp add: enter_alt [OF Some] rd_pos_def pos_enter_def Some enter_state_def skip_idem)
qed

lemma doc_of_enter: "rd_doc (xml_rd_enter fnm xml) = rd_doc xml"
proof (cases "rd_node xml")
  case None
  then show ?thesis by (simp add: xml_rd_enter_def)
next
  case (Some p)
  show ?thesis by (simp add: enter_alt [OF Some] enter_state_def)
qed

lemma pos_of_leave: "rd_pos (xml_rd_leave fnm xml) = pos_leave (rd_pos xml)"
  by (simp add: xml_rd_leave_def rd_pos_def pos_leave_def Let_def split: option.splits)

lemma doc_of_leave: "rd_doc (xml_rd_leave fnm xml) = rd_doc xml"
  by (simp add: xml_rd_leave_def Let_def split: option.splits)

lemma pos_of_loop:
  "rd_pos (deep_next_loop fnm xml fl) = pos_loop (rd_doc xml) fl (rd_pos xml)
   \<and> rd_doc (deep_next_loop fnm xml fl) = rd_doc xml"
proof (induction fnm xml fl rule: deep_next_loop.induct)
  case (1 fnm xml depth)
  show ?case
  proof (cases "xml_rd_end xml \<and> xml_rd_depth xml > unat (depth + 1)")
    case True
    then have c: "fst (rd_pos xml) = None \<and> snd (snd (rd_pos xml)) > unat (depth + 1)"
      by (simp add: rd_pos_def xml_rd_end_def xml_rd_depth_def)
    have l: "deep_next_loop fnm xml depth
             = deep_next_loop fnm (xml_rd_next fnm (xml_rd_leave fnm xml)) depth"
      using True by (subst deep_next_loop.simps) simp
    have r: "pos_loop (rd_doc xml) depth (rd_pos xml)
             = pos_loop (rd_doc xml) depth (pos_next (rd_doc xml) (pos_leave (rd_pos xml)))"
      using c by (subst pos_loop.simps) simp
    show ?thesis
      using 1 [OF True] by (simp add: l r pos_of_next pos_of_leave doc_of_next doc_of_leave)
  next
    case False
    then have c: "\<not> (fst (rd_pos xml) = None \<and> snd (snd (rd_pos xml)) > unat (depth + 1))"
      by (simp add: rd_pos_def xml_rd_end_def xml_rd_depth_def)
    have l: "deep_next_loop fnm xml depth = xml"
      using False by (subst deep_next_loop.simps) auto
    have r: "pos_loop (rd_doc xml) depth (rd_pos xml) = rd_pos xml"
      using c by (subst pos_loop.simps) auto
    show ?thesis by (simp add: l r)
  qed
qed

lemma walk_is_pos_walk:
  "deep_walk fnm fl k xml = pos_walk (rd_doc xml) fl k (rd_pos xml)"
proof (induction k arbitrary: xml)
  case 0
  show ?case by simp
next
  case (Suc k)
  have p: "rd_pos (xml_rd_deep_next fnm xml fl)
           = pos_loop (rd_doc xml) fl (pos_enter (rd_doc xml) (rd_pos xml))"
    and d: "rd_doc (xml_rd_deep_next fnm xml fl) = rd_doc xml"
    by (simp_all add: xml_rd_deep_next_def pos_of_loop pos_of_enter doc_of_enter)
  have f: "fst (rd_pos xml) = rd_node xml" "snd (snd (rd_pos xml)) = rd_depth xml"
    by (simp_all add: rd_pos_def)
  show ?case
    by (cases "rd_node xml") (simp_all add: Suc.IH p d f xml_rd_depth_def)
qed

lemma sib_children: "node_children doc p = sib doc p 0"
  by (simp add: node_children_def sib_def)

lemma sib_next: "node_next doc (i # up) = sib doc up (Suc i)"
  by (simp add: node_next_def sib_def)

lemma drop_kids_Cons:
  assumes "drop i (kids doc up) = k # ks"
  shows "sib doc up i = Some (i # up)" "deref doc (i # up) = Some k"
    "node_is_element doc (i # up) = is_element k" "kids doc (i # up) = element_children k"
    "drop (Suc i) (kids doc up) = ks"
proof -
  from assms have i: "i < length (kids doc up)"
    by (cases "i < length (kids doc up)") auto
  from assms have k: "kids doc up ! i = k"
    using i by (metis Cons_nth_drop_Suc list.inject)
  from assms show "drop (Suc i) (kids doc up) = ks"
    using i by (metis Cons_nth_drop_Suc list.inject)
  show "sib doc up i = Some (i # up)" using i by (simp add: sib_def)
  show d: "deref doc (i # up) = Some k" using i k by (simp add: deref_def)
  show "node_is_element doc (i # up) = is_element k" by (simp add: node_is_element_def d)
  show "kids doc (i # up) = element_children k" using i k by simp
qed

lemma drop_kids_Nil: "drop i (kids doc up) = [] \<Longrightarrow> sib doc up i = None"
  by (simp add: sib_def)

lemma pos_loop_stay: "n \<noteq> None \<or> d \<le> unat (fl + 1) \<Longrightarrow> pos_loop doc fl (n, par, d) = (n, par, d)"
  by (subst pos_loop.simps) auto

lemma pos_loop_up:
  "unat (fl + 1) < Suc d \<Longrightarrow>
   pos_loop doc fl (None, Some (i # up), Suc d)
   = pos_loop doc fl (skip_dummy_loop doc (sib doc up (Suc i)), Some up, d)"
  by (subst pos_loop.simps)
    (simp add: pos_leave_def pos_next_def node_parent_def sib_next)

lemma pos_walk_end [simp]: "pos_walk doc fl k (None, par, d) = []"
  by (cases k) simp_all

lemma pos_walk_step:
  "pos_walk doc fl (Suc k) (Some p, par, d)
   = (p, d) # pos_walk doc fl k (pos_loop doc fl (skip_dummy_loop doc (sib doc p 0), Some p, Suc d))"
  by (simp add: pos_enter_def sib_children)

lemma walk_subtree:
  "deref doc p = Some e \<Longrightarrow> unat (fl + 1) \<le> Suc d \<Longrightarrow>
   pos_walk doc fl (length (preorder e p d) + k) (Some p, par, d)
   = preorder e p d @ pos_walk doc fl k (pos_loop doc fl (None, Some p, Suc d))
   \<or> \<not> is_element e"
  and walk_siblings:
  "drop i (kids doc up) = ks \<Longrightarrow> unat (fl + 1) \<le> d' \<Longrightarrow>
   pos_walk doc fl (length (preorder_list ks i up d') + k')
     (pos_loop doc fl (skip_dummy_loop doc (sib doc up i), Some up, d'))
   = preorder_list ks i up d' @ pos_walk doc fl k' (pos_loop doc fl (None, Some up, d'))"
proof (induction e p d and ks i up d' arbitrary: k par and k' rule: preorder_preorder_list.induct)
  case (1 n ns cs p d)
  have kd: "drop 0 (kids doc p) = cs"
    using 1(2) by (cases p) (auto simp: deref_def Let_def split: if_splits)
  have "pos_walk doc fl (length (preorder (XML_ELEMENT_NODE n ns cs) p d) + k) (Some p, par, d)
        = (p, d) # pos_walk doc fl (length (preorder_list cs 0 p (Suc d)) + k)
                     (pos_loop doc fl (skip_dummy_loop doc (sib doc p 0), Some p, Suc d))"
    by (simp add: pos_walk_step del: pos_walk.simps)
  also have "\<dots> = (p, d) # (preorder_list cs 0 p (Suc d)
                     @ pos_walk doc fl k (pos_loop doc fl (None, Some p, Suc d)))"
    using 1(1) [OF kd 1(3)] by simp
  finally show ?case by simp
next
  case (6 i up d)
  then have "sib doc up i = None" by (simp add: drop_kids_Nil)
  then show ?case by simp
next
  case (7 e ks i up d)
  note c = drop_kids_Cons [OF 7(3)]
  have up: "pos_loop doc fl (None, Some (i # up), Suc d)
            = pos_loop doc fl (skip_dummy_loop doc (sib doc up (Suc i)), Some up, d)"
    using 7(4) by (intro pos_loop_up) simp
  have rest: "pos_walk doc fl (length (preorder_list ks (Suc i) up d) + k')
                (pos_loop doc fl (skip_dummy_loop doc (sib doc up (Suc i)), Some up, d))
              = preorder_list ks (Suc i) up d
                @ pos_walk doc fl k' (pos_loop doc fl (None, Some up, d))"
    by (rule 7(2) [OF c(5) 7(4)])
  show ?case
  proof (cases "is_element e")
    case True
    have here: "pos_loop doc fl (skip_dummy_loop doc (sib doc up i), Some up, d)
                = (Some (i # up), Some up, d)"
      using True by (simp add: c skip_element pos_loop_stay)
    have le: "unat (fl + 1) \<le> Suc d" using 7(4) by simp
    from 7(1) [OF c(2) le, of "length (preorder_list ks (Suc i) up d) + k'" "Some up"] True
    have "pos_walk doc fl (length (preorder e (i # up) d)
                           + (length (preorder_list ks (Suc i) up d) + k'))
            (Some (i # up), Some up, d)
          = preorder e (i # up) d
            @ pos_walk doc fl (length (preorder_list ks (Suc i) up d) + k')
                (pos_loop doc fl (None, Some (i # up), Suc d))"
      by simp
    then show ?thesis
      by (simp add: here up rest add.assoc del: pos_walk.simps)
  next
    case False
    then have e: "preorder e (i # up) d = []" by (cases e) simp_all
    have "skip_dummy_loop doc (sib doc up i) = skip_dummy_loop doc (sib doc up (Suc i))"
      using False by (simp add: c skip_other sib_next)
    then show ?thesis
      using rest by (simp add: e)
  qed
qed simp_all




lemma unat_floor_succ:
  fixes fl :: "32 word"
  assumes "unat fl + 1 < 2 ^ 32"
  shows "unat (fl + 1) = Suc (unat fl)"
proof -
  have "unat fl + unat (1 :: 32 word) < 2 ^ LENGTH(32)" using assms by simp
  then have "unat (fl + 1) = unat fl + unat (1 :: 32 word)" by (simp only: unat_add_lem)
  then show ?thesis by simp
qed

lemma preorder_depths:
  "\<forall>x \<in> set (preorder e p d). d \<le> snd x"
  "\<forall>x \<in> set (preorder_list ks i up d'). d' \<le> snd x"
  by (induction e p d and ks i up d' rule: preorder_preorder_list.induct) auto

lemma preorder_positions:
  "q \<in> fst ` set (preorder e p d) \<Longrightarrow> \<exists>xs. q = xs @ p"
  "q \<in> fst ` set (preorder_list ks i up d') \<Longrightarrow> \<exists>xs j. q = xs @ (j # up) \<and> i \<le> j"
proof (induction e p d and ks i up d' arbitrary: q and q rule: preorder_preorder_list.induct)
  case (1 n ns cs p d)
  from 1(2) have "q = p \<or> q \<in> fst ` set (preorder_list cs 0 p (Suc d))" by auto
  then show ?case
  proof
    assume "q = p" then show ?thesis by simp
  next
    assume "q \<in> fst ` set (preorder_list cs 0 p (Suc d))"
    from 1(1) [OF this] obtain xs j where "q = xs @ (j # p)" by blast
    then have "q = (xs @ [j]) @ p" by simp
    then show ?thesis by blast
  qed
next
  case (7 k ks i up d)
  from 7(3) have "q \<in> fst ` set (preorder k (i # up) d)
                  \<or> q \<in> fst ` set (preorder_list ks (Suc i) up d)" by auto
  then show ?case
  proof
    assume "q \<in> fst ` set (preorder k (i # up) d)"
    from 7(1) [OF this] show ?thesis by blast
  next
    assume "q \<in> fst ` set (preorder_list ks (Suc i) up d)"
    from 7(2) [OF this] obtain xs j where "q = xs @ (j # up)" "Suc i \<le> j" by blast
    then have "q = xs @ (j # up) \<and> i \<le> j" by simp
    then show ?thesis by blast
  qed
qed simp_all

lemma preorder_distinct:
  "distinct (map fst (preorder e p d))"
  "distinct (map fst (preorder_list ks i up d'))"
proof (induction e p d and ks i up d' rule: preorder_preorder_list.induct)
  case (1 n ns cs p d)
  have "p \<notin> fst ` set (preorder_list cs 0 p (Suc d))"
  proof
    assume "p \<in> fst ` set (preorder_list cs 0 p (Suc d))"
    from preorder_positions(2) [OF this] obtain xs j where "p = xs @ (j # p)" by blast
    then have "length p = length (xs @ (j # p))" by simp
    then show False by simp
  qed
  with 1 show ?case by simp
next
  case (7 k ks i up d)
  have "fst ` set (preorder k (i # up) d) \<inter> fst ` set (preorder_list ks (Suc i) up d) = {}"
  proof (rule ccontr)
    assume "\<not> ?thesis"
    then obtain q where a: "q \<in> fst ` set (preorder k (i # up) d)"
      and b: "q \<in> fst ` set (preorder_list ks (Suc i) up d)" by blast
    from preorder_positions(1) [OF a] obtain xs where x: "q = xs @ (i # up)" by blast
    from preorder_positions(2) [OF b] obtain ys j where y: "q = ys @ (j # up)" "Suc i \<le> j" by blast
    from x y(1) have "xs @ (i # up) = ys @ (j # up)" by simp
    then have "i # up = j # up" by (simp add: append_eq_append_conv)
    with y(2) show False by simp
  qed
  with 7 show ?case by simp
qed simp_all

lemma skip_result_element:
  "skip_dummy_loop doc n = Some r \<Longrightarrow> node_is_element doc r"
proof (induction doc n rule: skip_dummy_loop.induct)
  case (1 doc node)
  show ?case
  proof (cases node)
    case None
    with 1(2) show ?thesis by simp
  next
    case (Some p)
    show ?thesis
    proof (cases "node_is_element doc p")
      case True
      with 1(2) Some show ?thesis by (simp add: skip_element)
    next
      case False
      with 1(2) Some have "skip_dummy_loop doc (node_next doc p) = Some r"
        by (simp add: skip_other)
      with 1(1) [OF Some False] show ?thesis by simp
    qed
  qed
qed

lemma open_depth: "rd_depth (xml_rd_open fnm doc ns) = 0"
  by (simp add: xml_rd_open_def xml_rd_skip_dummy_def xml_rd_new_def)

lemma deep_walk_subtree:
  assumes node: "rd_node xml = Some p" and el: "deref (rd_doc xml) p = Some e" "is_element e"
    and fl: "unat fl = rd_depth xml" and bound: "rd_depth xml + 1 < 2 ^ 32"
  shows "deep_walk fnm fl (length (preorder e p (rd_depth xml)) + k) xml
           = preorder e p (rd_depth xml)"
proof -
  let ?d = "rd_depth xml"
  have f1: "unat (fl + 1) = Suc ?d"
    using unat_floor_succ [of fl] fl bound by simp
  have pos: "rd_pos xml = (Some p, rd_parent xml, ?d)"
    by (simp add: rd_pos_def node)
  have le: "unat (fl + 1) \<le> Suc ?d" by (simp add: f1)
  from walk_subtree [OF el(1) le, of k "rd_parent xml"] el(2)
  have "pos_walk (rd_doc xml) fl (length (preorder e p ?d) + k) (Some p, rd_parent xml, ?d)
        = preorder e p ?d
          @ pos_walk (rd_doc xml) fl k (pos_loop (rd_doc xml) fl (None, Some p, Suc ?d))"
    by simp
  also have "pos_loop (rd_doc xml) fl (None, Some p, Suc ?d) = (None, Some p, Suc ?d)"
    by (rule pos_loop_stay) (simp add: f1)
  finally show ?thesis
    by (simp add: walk_is_pos_walk pos)
qed

text \<open>
  C4. Started at an element with the floor depth equal to the depth of that element, the
  walk with \<^verbatim>\<open>xml_rd_deep_next\<close> visits every element of the subtree of that element exactly
  once, in document order, then ends; no reported depth is less than the floor. In
  particular, started at the document root, where the depth is 0, with the floor depth 0, the
  walk visits the root element and every element below it exactly once, in document order.
\<close>

theorem C4_deep_walk_document_order:
  "(rd_node xml = Some p \<and> deref (rd_doc xml) p = Some e \<and> is_element e
      \<and> unat fl = rd_depth xml \<and> rd_depth xml + 1 < 2 ^ 32 \<longrightarrow>
    deep_walk fnm fl (length (preorder e p (rd_depth xml)) + k) xml
      = preorder e p (rd_depth xml)
    \<and> (\<forall>x \<in> set (preorder e p (rd_depth xml)). unat fl \<le> snd x)
    \<and> distinct (map fst (preorder e p (rd_depth xml))))
   \<and> (xmlDocGetRootElement doc = Some r \<and> deref doc r = Some e' \<longrightarrow>
    deep_walk fnm 0 (length (preorder e' r 0) + k) (xml_rd_open fnm doc ns) = preorder e' r 0
    \<and> (\<forall>x \<in> set (preorder e' r 0). unat (0 :: 32 word) \<le> snd x)
    \<and> distinct (map fst (preorder e' r 0)))"
proof (intro conjI impI)
  assume a: "rd_node xml = Some p \<and> deref (rd_doc xml) p = Some e \<and> is_element e
      \<and> unat fl = rd_depth xml \<and> rd_depth xml + 1 < 2 ^ 32"
  then show "deep_walk fnm fl (length (preorder e p (rd_depth xml)) + k) xml
      = preorder e p (rd_depth xml)"
    using deep_walk_subtree by blast
  from a show "\<forall>x \<in> set (preorder e p (rd_depth xml)). unat fl \<le> snd x"
    using preorder_depths(1) [of e p "rd_depth xml"] by simp
  show "distinct (map fst (preorder e p (rd_depth xml)))"
    by (rule preorder_distinct(1))
next
  assume a: "xmlDocGetRootElement doc = Some r \<and> deref doc r = Some e'"
  let ?x = "xml_rd_open fnm doc ns"
  from a have ie: "node_is_element doc r"
    using skip_result_element [of doc "node_children doc []" r]
    by (simp add: xmlDocGetRootElement_def)
  with a have el: "is_element e'" by (simp add: node_is_element_def)
  have n: "rd_node ?x = Some r"
    using a ie by (simp add: open_node skip_element)
  have d: "rd_depth ?x = 0" by (rule open_depth)
  have dr: "deref (rd_doc ?x) r = Some e'" using a by (simp add: open_node)
  have "deep_walk fnm 0 (length (preorder e' r (rd_depth ?x)) + k) ?x
          = preorder e' r (rd_depth ?x)"
    by (rule deep_walk_subtree [OF n dr el]) (simp_all add: d)
  then show "deep_walk fnm 0 (length (preorder e' r 0) + k) ?x = preorder e' r 0"
    by (simp add: d)
  show "\<forall>x \<in> set (preorder e' r 0). unat (0 :: 32 word) \<le> snd x" by simp
  show "distinct (map fst (preorder e' r 0))"
    by (rule preorder_distinct(1))
qed

theorem C4_deep_walk_document_order_witness:
  "rd_node (xml_rd_enter glob (xml_rd_open glob doc_nested None)) = Some [0, 0]
   \<and> deref (rd_doc (xml_rd_enter glob (xml_rd_open glob doc_nested None))) [0, 0]
       = Some (XML_ELEMENT_NODE ''a'' None
                 [XML_ELEMENT_NODE ''x'' None [], XML_ELEMENT_NODE ''y'' None []])
   \<and> unat (1 :: 32 word) = rd_depth (xml_rd_enter glob (xml_rd_open glob doc_nested None))
   \<and> deep_walk glob 1 10 (xml_rd_enter glob (xml_rd_open glob doc_nested None))
       = [([0, 0], 1), ([0, 0, 0], 2), ([1, 0, 0], 2)]
   \<and> xmlDocGetRootElement doc_nested = Some [0]
   \<and> deref doc_nested [0] = Some (hd doc_nested)
   \<and> deep_walk glob 0 10 (xml_rd_open glob doc_nested None)
       = [([0], 0), ([0, 0], 1), ([0, 0, 0], 2), ([1, 0, 0], 2), ([1, 0], 1)]"
proof -
  let ?o = "xml_rd_open glob doc_nested None"
  let ?x = "xml_rd_enter glob ?o"
  let ?a = "XML_ELEMENT_NODE ''a'' None
              [XML_ELEMENT_NODE ''x'' None [], XML_ELEMENT_NODE ''y'' None []]"
  have n: "rd_node ?x = Some [0, 0]" by code_simp
  have e: "deref (rd_doc ?x) [0, 0] = Some ?a" by code_simp
  have d: "rd_depth ?x = 1" by code_simp
  have r: "xmlDocGetRootElement doc_nested = Some [0]" by code_simp
  have h: "deref doc_nested [0] = Some (hd doc_nested)" by code_simp
  have pa: "preorder ?a [0, 0] 1 = [([0, 0], 1), ([0, 0, 0], 2), ([1, 0, 0], 2)]"
    by simp
  have pr: "preorder (hd doc_nested) [0] 0
      = [([0], 0), ([0, 0], 1), ([0, 0, 0], 2), ([1, 0, 0], 2), ([1, 0], 1)]"
    by (simp add: doc_nested_def)
  from C4_deep_walk_document_order [of ?x "[0, 0]" ?a 1 glob 7 doc_nested "[0]" "hd doc_nested" None]
    n e d r h
  have "deep_walk glob 1 10 ?x = [([0, 0], 1), ([0, 0, 0], 2), ([1, 0, 0], 2)]"
    by (simp add: pa)
  moreover
  from C4_deep_walk_document_order [of ?x "[0, 0]" ?a 1 glob 5 doc_nested "[0]" "hd doc_nested" None]
    r h
  have "deep_walk glob 0 10 ?o
      = [([0], 0), ([0, 0], 1), ([0, 0, 0], 2), ([1, 0, 0], 2), ([1, 0], 1)]"
    by (simp add: pr)
  ultimately show ?thesis using n e d r h by simp
qed

end
